theory Spec2Isabelle
  imports Complex_Main "HOL-Library.Multiset"
begin

section \<open>Data model\<close>

text \<open>
  The program handles a channel record as a five-element tuple
  \<^verbatim>\<open>(band, ch, freq, freq_err, p)\<close> and reads it by position
  (\<^verbatim>\<open>ch[0]\<close>, \<^verbatim>\<open>ch[1]\<close>, \<^verbatim>\<open>c[3]\<close>, \<^verbatim>\<open>c[4]\<close>).
  A Python float is represented by the real number it stands for; infinities and NaN
  have no representation.
\<close>

type_synonym channel = "string \<times> int \<times> real \<times> real \<times> real"

fun band_of :: "channel \<Rightarrow> string" where
  "band_of (b, ch, f, fe, p) = b"

fun channel_of :: "channel \<Rightarrow> int" where
  "channel_of (b, ch, f, fe, p) = ch"

fun frequency_of :: "channel \<Rightarrow> real" where
  "frequency_of (b, ch, f, fe, p) = f"

fun deviation_of :: "channel \<Rightarrow> real" where
  "deviation_of (b, ch, f, fe, p) = fe"

fun power_of :: "channel \<Rightarrow> real" where
  "power_of (b, ch, f, fe, p) = p"

text \<open>
  The exceptions the modelled code can raise and the failures of the external program.
  \<open>NonFinite\<close> is not a Python exception: it marks the place where \<^verbatim>\<open>float\<close>
  returns an infinity or a NaN and the program goes on with it, which this development
  does not follow.
\<close>

datatype error =
    ValueError
  | IndexError
  | ZeroDivisionError
  | UnicodeDecodeError
  | OSError
  | CalledProcessError
  | TimeoutExpired
  | NonFinite

text \<open>Sequencing of steps that may raise: the first exception ends the computation.\<close>

definition bind :: "error + 'a \<Rightarrow> ('a \<Rightarrow> error + 'b) \<Rightarrow> error + 'b" where
  "bind m f = (case m of Inl e \<Rightarrow> Inl e | Inr x \<Rightarrow> f x)"

text \<open>Tuple unpacking \<^verbatim>\<open>a, b = xs\<close> raises \<^verbatim>\<open>ValueError\<close> on any other length.\<close>

definition unpack2 :: "'a list \<Rightarrow> error + 'a \<times> 'a" where
  "unpack2 xs = (case xs of [a, b] \<Rightarrow> Inr (a, b) | _ \<Rightarrow> Inl ValueError)"

definition unpack3 :: "'a list \<Rightarrow> error + 'a \<times> 'a \<times> 'a" where
  "unpack3 xs = (case xs of [a, b, c] \<Rightarrow> Inr (a, b, c) | _ \<Rightarrow> Inl ValueError)"

text \<open>
  Floating-point operations round, and what they return is not what the same operation
  on real numbers returns. The operations whose rounding can change what the program
  does are parameters of the model: the double that \<^verbatim>\<open>float\<close> returns for a literal
  of a given exact value, and whether that value is so large that \<^verbatim>\<open>float\<close> returns
  an infinity for it; \<^verbatim>\<open>sum\<close> of a list of floats, which is not the same function in
  every version of Python; the quotient and the difference of two floats. Comparison,
  \<^verbatim>\<open>abs\<close> and negation of floats are exact. \<open>exact_arith\<close> is the arithmetic that
  never rounds.
\<close>

record arith =
  to_double :: "real \<Rightarrow> real"
  overflows :: "real \<Rightarrow> bool"
  f_sum :: "real list \<Rightarrow> real"
  f_div :: "real \<Rightarrow> real \<Rightarrow> real"
  f_sub :: "real \<Rightarrow> real \<Rightarrow> real"

definition exact_arith :: arith where
  "exact_arith =
     \<lparr>to_double = (\<lambda>v. v), overflows = (\<lambda>v. False), f_sum = sum_list,
      f_div = (\<lambda>x y. x / y), f_sub = (\<lambda>x y. x - y)\<rparr>"

section \<open>Python strings\<close>

text \<open>
  A string is a list of characters; a character stands for a code point below 256.
  The definitions follow the methods of Python's \<^verbatim>\<open>str\<close> that the program calls.
\<close>

text \<open>
  \<^verbatim>\<open>str.isspace\<close> for one character: tab to carriage return, the four separators
  \<^verbatim>\<open>0x1c\<close> to \<^verbatim>\<open>0x1f\<close>, the space, next line and the no-break space.
  \<^verbatim>\<open>s.strip()\<close> removes such characters at both ends,
  \<^verbatim>\<open>s.rstrip(chars)\<close> removes at the right end the characters that occur in
  \<open>chars\<close>.
\<close>

definition isspace :: "char \<Rightarrow> bool" where
  "isspace c = (of_char c \<in> {9, 10, 11, 12, 13, 28, 29, 30, 31, 32, 133, 160 :: nat})"

definition lstrip :: "string \<Rightarrow> string" where
  "lstrip s = dropWhile isspace s"

definition rstrip :: "string \<Rightarrow> string" where
  "rstrip s = rev (dropWhile isspace (rev s))"

definition strip :: "string \<Rightarrow> string" where
  "strip s = rstrip (lstrip s)"

definition rstrip_chars :: "string \<Rightarrow> string \<Rightarrow> string" where
  "rstrip_chars chars s = rev (dropWhile (\<lambda>c. c \<in> set chars) (rev s))"

text \<open>
  \<^verbatim>\<open>s.split(sep)\<close> for a separator that is not empty (the program passes
  constants only): the pieces between the occurrences of \<open>sep\<close>, found from left to
  right; there is always at least one piece.
\<close>

fun split_from :: "string \<Rightarrow> string \<Rightarrow> string \<Rightarrow> string list" where
  "split_from sep cur [] = [cur]"
| "split_from sep cur (c # s) =
     (if sep \<noteq> [] \<and> take (length sep) (c # s) = sep
      then cur # split_from sep [] (drop (length sep - 1) s)
      else split_from sep (cur @ [c]) s)"

definition split :: "string \<Rightarrow> string \<Rightarrow> string list" where
  "split sep s = split_from sep [] s"

text \<open>
  \<^verbatim>\<open>s.split(maxsplit=1)\<close>: the first run of characters that are not whitespace and,
  when something follows the whitespace after it, the rest of the string.
\<close>

definition split_ws_max1 :: "string \<Rightarrow> string list" where
  "split_ws_max1 s =
     (let s1 = dropWhile isspace s in
      if s1 = [] then []
      else (let tok = takeWhile (\<lambda>c. \<not> isspace c) s1;
                rest = dropWhile isspace (dropWhile (\<lambda>c. \<not> isspace c) s1)
            in if rest = [] then [tok] else [tok, rest]))"

text \<open>
  \<^verbatim>\<open>int(s)\<close> and \<^verbatim>\<open>float(s)\<close> on a string. Both remove whitespace at the two
  ends, but not the same characters as \<^verbatim>\<open>strip\<close>: the separators \<^verbatim>\<open>0x1c\<close> to
  \<^verbatim>\<open>0x1f\<close> stay and make the conversion raise. Both take a sign; digits may be
  grouped by single underscores; \<^verbatim>\<open>float\<close> takes a point, an exponent, and the
  words for infinity and NaN in any case. A finite literal has an exact decimal value,
  which \<^verbatim>\<open>float\<close> converts to a double. The limit of CPython on the number of
  digits of an integer is left out.
\<close>

definition num_space :: "char \<Rightarrow> bool" where
  "num_space c = (of_char c \<in> {9, 10, 11, 12, 13, 32, 133, 160 :: nat})"

definition num_strip :: "string \<Rightarrow> string" where
  "num_strip s = rev (dropWhile num_space (rev (dropWhile num_space s)))"

definition isdigit :: "char \<Rightarrow> bool" where
  "isdigit c = (48 \<le> (of_char c :: nat) \<and> (of_char c :: nat) \<le> 57)"

definition digit_val :: "char \<Rightarrow> nat" where
  "digit_val c = of_char c - 48"

fun digitpart :: "string \<Rightarrow> bool" where
  "digitpart [] = False"
| "digitpart [c] = isdigit c"
| "digitpart (c # d # s) =
     (isdigit c \<and> (if d = CHR ''_'' then digitpart s else digitpart (d # s)))"

definition digits_val :: "string \<Rightarrow> nat" where
  "digits_val s = foldl (\<lambda>n c. 10 * n + digit_val c) 0 (filter isdigit s)"

definition split_sign :: "string \<Rightarrow> bool \<times> string" where
  "split_sign s =
     (case s of
        [] \<Rightarrow> (False, [])
      | c # r \<Rightarrow> if c = CHR ''-'' then (True, r) else if c = CHR ''+'' then (False, r)
                 else (False, s))"

definition py_int :: "string \<Rightarrow> error + int" where
  "py_int s =
     (case split_sign (num_strip s) of
        (neg, body) \<Rightarrow>
          if digitpart body
          then Inr (if neg then - int (digits_val body) else int (digits_val body))
          else Inl ValueError)"

definition lower :: "char \<Rightarrow> char" where
  "lower c = (if 65 \<le> (of_char c :: nat) \<and> (of_char c :: nat) \<le> 90
              then char_of (of_char c + 32 :: nat) else c)"

definition mantissa :: "string \<Rightarrow> real option" where
  "mantissa m =
     (let ip = takeWhile (\<lambda>c. c \<noteq> CHR ''.'') m
      in case dropWhile (\<lambda>c. c \<noteq> CHR ''.'') m of
           [] \<Rightarrow> if digitpart ip then Some (real (digits_val ip)) else None
         | dot # fp \<Rightarrow>
             if (ip = [] \<or> digitpart ip) \<and> (fp = [] \<or> digitpart fp) \<and> \<not> (ip = [] \<and> fp = [])
             then Some (real (digits_val ip)
                        + real (digits_val fp) / 10 ^ length (filter isdigit fp))
             else None)"

definition exponent :: "string \<Rightarrow> int option" where
  "exponent x =
     (case split_sign x of
        (neg, body) \<Rightarrow>
          if digitpart body
          then Some (if neg then - int (digits_val body) else int (digits_val body))
          else None)"

definition scale10 :: "real \<Rightarrow> int \<Rightarrow> real" where
  "scale10 v k = (if 0 \<le> k then v * 10 ^ nat k else v / 10 ^ nat (- k))"

definition exp_char :: "char \<Rightarrow> bool" where
  "exp_char c = (c = CHR ''e'' \<or> c = CHR ''E'')"

definition float_body :: "string \<Rightarrow> real option" where
  "float_body b =
     (case mantissa (takeWhile (\<lambda>c. \<not> exp_char c) b) of
        None \<Rightarrow> None
      | Some v \<Rightarrow>
          (case dropWhile (\<lambda>c. \<not> exp_char c) b of
             [] \<Rightarrow> Some v
           | e # x \<Rightarrow> (case exponent x of None \<Rightarrow> None | Some k \<Rightarrow> Some (scale10 v k))))"

text \<open>
  The float of a literal of exact value \<open>v\<close> after its sign: the double nearest to
  \<open>v\<close>, negated under a minus sign.
\<close>

definition from_decimal :: "arith \<Rightarrow> bool \<Rightarrow> real \<Rightarrow> error + real" where
  "from_decimal fp neg v =
     (if overflows fp v then Inl NonFinite
      else Inr (if neg then - to_double fp v else to_double fp v))"

definition py_float :: "arith \<Rightarrow> string \<Rightarrow> error + real" where
  "py_float fp s =
     (case split_sign (num_strip s) of
        (neg, body) \<Rightarrow>
          if map lower body \<in> {''inf'', ''infinity'', ''nan''} then Inl NonFinite
          else (case float_body body of
                  None \<Rightarrow> Inl ValueError
                | Some v \<Rightarrow> from_decimal fp neg v))"

text \<open>\<^verbatim>\<open>str(i)\<close> and \<^verbatim>\<open>'%d' % i\<close> for an integer.\<close>

definition digit_chr :: "nat \<Rightarrow> char" where
  "digit_chr d = ''0123456789'' ! d"

function digits_of :: "nat \<Rightarrow> string" where
  "digits_of n = (if n < 10 then [digit_chr n] else digits_of (n div 10) @ [digit_chr (n mod 10)])"
  by pat_completeness auto
termination
  by (relation "measure id") auto

declare digits_of.simps [simp del]

definition str_int :: "int \<Rightarrow> string" where
  "str_int i = (if i < 0 then CHR ''-'' # digits_of (nat (- i)) else digits_of (nat i))"

section \<open>The external tool: \<^verbatim>\<open>CalTool\<close>\<close>

text \<open>
  The program runs \<^verbatim>\<open>kalibrate-rtl\<close> as a subprocess and reads what it prints.
  What the subprocess does is not the program's: it is a parameter, giving for the
  \<open>k\<close>-th run and its argument vector either the bytes printed or the exception of
  \<^verbatim>\<open>check_output\<close>. \<open>replay\<close> is the tool that prints a given list of outputs,
  one per run.
\<close>

type_synonym tool = "nat \<Rightarrow> string list \<Rightarrow> error + string"

definition replay :: "string list \<Rightarrow> tool" where
  "replay outs k argv = (if k < length outs then Inr (outs ! k) else Inl CalledProcessError)"

definition BIN :: string where
  "BIN = ''kalibrate-rtl''"

text \<open>\<^verbatim>\<open>bytes.decode('ascii')\<close> raises on a byte above 127.\<close>

definition decode_ascii :: "string \<Rightarrow> error + string" where
  "decode_ascii bs =
     (if list_all (\<lambda>c. (of_char c :: nat) < 128) bs then Inr bs else Inl UnicodeDecodeError)"

subsection \<open>\<^verbatim>\<open>listChannels\<close>\<close>

text \<open>
  The body of the loop over the lines for a line that is not blank, \<open>line\<close> being
  the stripped line. The names are the source's; each step that can raise is one
  \<open>bind\<close>.
\<close>

definition scan_line :: "arith \<Rightarrow> string \<Rightarrow> string \<Rightarrow> error + channel" where
  "scan_line fp band line =
     bind (unpack3 (split '':'' line)) (\<lambda>(u, ch, p).
     bind (unpack2 (split ''('' (strip ch))) (\<lambda>(ch, freq).
     bind (py_int ch) (\<lambda>ch.
     bind (if CHR ''+'' \<in> set freq
           then unpack2 (split ''+'' (strip freq))
           else bind (unpack2 (split ''-'' (strip freq))) (\<lambda>(freq, freq_err).
                Inr (freq, ''-'' @ strip freq_err))) (\<lambda>(freq, freq_err).
     bind (py_float fp (rstrip_chars ''MHz'' (strip freq))) (\<lambda>freq.
     bind (py_float fp (rstrip_chars ''kHz)'' (strip (rstrip_chars ''power'' (strip freq_err)))))
       (\<lambda>freq_err.
     bind (py_float fp (strip p)) (\<lambda>p.
     Inr (band, ch, freq, freq_err, p))))))))"

fun scan_loop ::
  "arith \<Rightarrow> string \<Rightarrow> string list \<Rightarrow> channel list \<Rightarrow> error + channel list"
where
  "scan_loop fp band [] chlist = Inr chlist"
| "scan_loop fp band (l # lines) chlist =
     (let line = strip l
      in if line = [] then scan_loop fp band lines chlist
         else bind (scan_line fp band line) (\<lambda>c. scan_loop fp band lines (chlist @ [c])))"

definition listChannels :: "arith \<Rightarrow> tool \<Rightarrow> nat \<Rightarrow> string \<Rightarrow> error + channel list" where
  "listChannels fp run k band =
     bind (run k [BIN, ''-s'', band]) (\<lambda>out.
     bind (decode_ascii out) (\<lambda>text.
     scan_loop fp band (drop 1 (split [CHR 0x0A] text)) []))"

subsection \<open>\<^verbatim>\<open>measurePPM\<close>\<close>

definition measurePPM :: "arith \<Rightarrow> tool \<Rightarrow> nat \<Rightarrow> string \<Rightarrow> int \<Rightarrow> error + real" where
  "measurePPM fp run k band channel =
     bind (run k [BIN, ''-b'', band, ''-c'', str_int channel]) (\<lambda>out.
     bind (decode_ascii out) (\<lambda>lines.
     bind (unpack2 (split ''average absolute error:'' lines)) (\<lambda>(u, ppm).
     bind (unpack2 (split_ws_max1 (strip ppm))) (\<lambda>(ppm, v).
     py_float fp (strip ppm)))))"

section \<open>Aggregation: \<^verbatim>\<open>CalTool.measureMeanPPM\<close>\<close>

text \<open>\<^verbatim>\<open>max(xs)\<close> raises \<^verbatim>\<open>ValueError\<close> on an empty list.\<close>

definition py_max :: "real list \<Rightarrow> error + real" where
  "py_max xs = (case xs of [] \<Rightarrow> Inl ValueError | x # ys \<Rightarrow> Inr (foldl max x ys))"

text \<open>
  The loop over the channels, with the list of measured values and the two running sums
  \<^verbatim>\<open>ppm\<close> and \<^verbatim>\<open>pwr\<close>; \<open>k\<close> counts the runs of the tool. A measurement that
  raises ends the aggregation.
\<close>

fun measure_loop ::
  "arith \<Rightarrow> tool \<Rightarrow> nat \<Rightarrow> channel list \<Rightarrow> real list \<times> real \<times> real
     \<Rightarrow> error + real list \<times> real \<times> real"
where
  "measure_loop fp run k [] acc = Inr acc"
| "measure_loop fp run k (ch # channels) (ppms, ppm, pwr) =
     bind (measurePPM fp run k (band_of ch) (channel_of ch)) (\<lambda>p.
     measure_loop fp run (Suc k) channels
       (ppms @ [p], ppm + p * power_of ch, pwr + power_of ch))"

text \<open>
  Dividing by a total power of zero raises \<^verbatim>\<open>ZeroDivisionError\<close>. The sums, the
  quotient and the differences of the aggregation are those of the real numbers.
\<close>

definition measureMeanPPM :: "arith \<Rightarrow> tool \<Rightarrow> channel list \<Rightarrow> error + real \<times> real" where
  "measureMeanPPM fp run channels =
     bind (measure_loop fp run 0 channels ([], 0, 0)) (\<lambda>(ppms, ppm, pwr).
     if pwr = 0 then Inl ZeroDivisionError
     else (let ppm = ppm / pwr
           in bind (py_max (map (\<lambda>p. \<bar>p - ppm\<bar>) ppms)) (\<lambda>ppm_err.
              Inr (ppm, ppm_err))))"

section \<open>The channel list store: \<^verbatim>\<open>BTSChannels\<close>\<close>

definition HDR :: string where
  "HDR = ''band,channel,freq (MHz),freq deviation (kHz),power''"

text \<open>
  Files are text files. A file system maps a path to the characters stored under it;
  a path that is not mapped cannot be opened. Reading in text mode turns the line ends
  \<^verbatim>\<open>\r\n\<close> and \<^verbatim>\<open>\r\<close> into \<^verbatim>\<open>\n\<close>; writing (on a POSIX system) stores
  the characters as they are.
\<close>

type_synonym files = "string \<rightharpoonup> string"

fun universal_newlines :: "string \<Rightarrow> string" where
  "universal_newlines [] = []"
| "universal_newlines [c] = (if c = CHR 0x0D then [CHR 0x0A] else [c])"
| "universal_newlines (c # d # s) =
     (if c = CHR 0x0D
      then (if d = CHR 0x0A then CHR 0x0A # universal_newlines s
            else CHR 0x0A # universal_newlines (d # s))
      else c # universal_newlines (d # s))"

text \<open>The lines of a text, each with its line end, as iteration over a file yields them.\<close>

fun lines_from :: "string \<Rightarrow> string \<Rightarrow> string list" where
  "lines_from cur [] = (if cur = [] then [] else [cur])"
| "lines_from cur (c # s) =
     (if c = CHR 0x0A then (cur @ [c]) # lines_from [] s else lines_from (cur @ [c]) s)"

definition file_lines :: "string \<Rightarrow> string list" where
  "file_lines s = lines_from [] s"

text \<open>\<^verbatim>\<open>xs[i]\<close> for an index that is not negative.\<close>

definition item :: "'a list \<Rightarrow> nat \<Rightarrow> error + 'a" where
  "item xs i = (if i < length xs then Inr (xs ! i) else Inl IndexError)"

text \<open>
  One data line: \<^verbatim>\<open>l = l.split(',')\<close>, then the tuple
  \<^verbatim>\<open>(l[0], int(l[1]), float(l[2]), float(l[3]), float(l[4]))\<close>, its components
  evaluated from left to right.
\<close>

definition load_line :: "arith \<Rightarrow> string \<Rightarrow> error + channel" where
  "load_line fp l =
     (let l = split '','' l in
      bind (item l 0) (\<lambda>band.
      bind (bind (item l 1) py_int) (\<lambda>ch.
      bind (bind (item l 2) (py_float fp)) (\<lambda>freq.
      bind (bind (item l 3) (py_float fp)) (\<lambda>freq_err.
      bind (bind (item l 4) (py_float fp)) (\<lambda>p.
      Inr (band, ch, freq, freq_err, p)))))))"

fun load_lines :: "arith \<Rightarrow> string list \<Rightarrow> channel list \<Rightarrow> error + channel list" where
  "load_lines fp [] self = Inr self"
| "load_lines fp (l # ls) self = bind (load_line fp l) (\<lambda>c. load_lines fp ls (self @ [c]))"

text \<open>\<^verbatim>\<open>fch.readline()\<close> on a file just opened: the first line, empty for an empty file.\<close>

definition readline :: "string \<Rightarrow> string" where
  "readline text = (case file_lines text of [] \<Rightarrow> [] | l # rest \<Rightarrow> l)"

definition load_text :: "arith \<Rightarrow> string \<Rightarrow> error + channel list" where
  "load_text fp text =
     (let hdr = strip (readline text)
      in if hdr \<noteq> HDR then Inl ValueError
         else load_lines fp (drop 1 (file_lines text)) [])"

text \<open>
  The constructor: from a path (a \<^verbatim>\<open>str\<close>), from a list, or from anything else,
  which raises.
\<close>

datatype src = FromPath string | FromList "channel list" | FromOther

definition BTSChannels :: "arith \<Rightarrow> files \<Rightarrow> src \<Rightarrow> error + channel list" where
  "BTSChannels fp fs src =
     (case src of
        FromPath path \<Rightarrow>
          (case fs path of
             None \<Rightarrow> Inl OSError
           | Some raw \<Rightarrow> load_text fp (universal_newlines raw))
      | FromList l \<Rightarrow> Inr l
      | FromOther \<Rightarrow> Inl ValueError)"

text \<open>
  \<^verbatim>\<open>'%f' % x\<close> and \<^verbatim>\<open>'%.2f' % x\<close>: the exact value of the float rounded to the
  given number of decimals, a tie going to the even neighbour, printed with a sign when
  negative.
\<close>

definition round_half_even :: "real \<Rightarrow> int" where
  "round_half_even x =
     (let f = \<lfloor>x\<rfloor>; r = x - of_int f
      in if r < 1 / 2 then f else if 1 / 2 < r then f + 1 else if even f then f else f + 1)"

definition zfill :: "nat \<Rightarrow> string \<Rightarrow> string" where
  "zfill p s = replicate (p - length s) CHR ''0'' @ s"

definition fmt_fixed :: "nat \<Rightarrow> real \<Rightarrow> string" where
  "fmt_fixed p x =
     (let q = nat (round_half_even (\<bar>x\<bar> * 10 ^ p))
      in (if x < 0 then ''-'' else []) @ digits_of (q div 10 ^ p)
         @ (if p = 0 then [] else ''.'' @ zfill p (digits_of (q mod 10 ^ p))))"

text \<open>\<^verbatim>\<open>'%s,%d,%f,%f,%.2f\n' % ch\<close>\<close>

definition save_line :: "channel \<Rightarrow> string" where
  "save_line ch =
     band_of ch @ '','' @ str_int (channel_of ch) @ '','' @ fmt_fixed 6 (frequency_of ch)
       @ '','' @ fmt_fixed 6 (deviation_of ch) @ '','' @ fmt_fixed 2 (power_of ch) @ [CHR 0x0A]"

definition save_text :: "channel list \<Rightarrow> string" where
  "save_text self = HDR @ [CHR 0x0A] @ concat (map save_line self)"

definition save :: "files \<Rightarrow> channel list \<Rightarrow> string \<Rightarrow> files" where
  "save fs self fname = fs(fname \<mapsto> save_text self)"

section \<open>Channel selection: \<^verbatim>\<open>BTSChannels.getBest\<close>\<close>

text \<open>\<^verbatim>\<open>sum([c[3] for c in channels]) / len(channels)\<close>; float division by zero raises.\<close>

definition f_mean_of :: "arith \<Rightarrow> channel list \<Rightarrow> error + real" where
  "f_mean_of fp channels =
     (if length channels = 0 then Inl ZeroDivisionError
      else Inr (f_div fp (f_sum fp (map deviation_of channels)) (real (length channels))))"

text \<open>
  The body of \<^verbatim>\<open>for idx in range(0, len(channels))\<close>: the pair is
  \<^verbatim>\<open>(_f_err, _idx)\<close>.
\<close>

definition for_body ::
  "arith \<Rightarrow> channel list \<Rightarrow> real \<Rightarrow> real \<times> int \<Rightarrow> nat \<Rightarrow> real \<times> int"
where
  "for_body fp channels f_mean acc idx =
     (let f_err = \<bar>f_sub fp (deviation_of (channels ! idx)) f_mean\<bar>
      in if f_err > fst acc then (f_err, int idx) else acc)"

definition worst :: "arith \<Rightarrow> channel list \<Rightarrow> real \<Rightarrow> real \<times> int" where
  "worst fp channels f_mean =
     foldl (for_body fp channels f_mean) (0, -1) [0..<length channels]"

text \<open>
  \<^verbatim>\<open>list.pop(i)\<close>, keeping only the list that remains: a negative index counts
  from the end, an index out of range (or an empty list) raises \<^verbatim>\<open>IndexError\<close>.
\<close>

definition pop :: "'a list \<Rightarrow> int \<Rightarrow> error + 'a list" where
  "pop xs i =
     (let n = int (length xs); j = (if i < 0 then i + n else i)
      in if 0 \<le> j \<and> j < n then Inr (take (nat j) xs @ drop (Suc (nat j)) xs)
         else Inl IndexError)"

text \<open>One execution of the body of \<^verbatim>\<open>while channels:\<close>.\<close>

datatype 'a outcome = Break | Next 'a | Raise error

definition while_body :: "arith \<Rightarrow> real \<Rightarrow> channel list \<Rightarrow> channel list outcome" where
  "while_body fp max_freq_err channels =
     (case f_mean_of fp channels of
        Inl e \<Rightarrow> Raise e
      | Inr f_mean \<Rightarrow>
          (case worst fp channels f_mean of
             (f_err, idx) \<Rightarrow>
               if f_err < max_freq_err then Break
               else (case pop channels idx of
                       Inl e \<Rightarrow> Raise e
                     | Inr channels' \<Rightarrow> Next channels')))"

lemma pop_length: "pop xs i = Inr ys \<Longrightarrow> Suc (length ys) = length xs"
  by (auto simp: pop_def Let_def split: if_splits)

lemma while_body_length: "while_body fp t cs = Next cs' \<Longrightarrow> Suc (length cs') = length cs"
  by (auto simp: while_body_def split: sum.splits prod.splits if_splits dest: pop_length)

function while_loop :: "arith \<Rightarrow> real \<Rightarrow> channel list \<Rightarrow> error + channel list" where
  "while_loop fp max_freq_err channels =
     (if channels = [] then Inr channels
      else (case while_body fp max_freq_err channels of
              Break \<Rightarrow> Inr channels
            | Raise e \<Rightarrow> Inl e
            | Next channels' \<Rightarrow> while_loop fp max_freq_err channels'))"
  by pat_completeness auto
termination
  by (relation "measure (\<lambda>(fp, t, cs). length cs)") (auto dest: while_body_length)

declare while_loop.simps [simp del]

text \<open>\<^verbatim>\<open>channels[:nchannels]\<close>: a negative bound counts from the end.\<close>

definition slice_to :: "'a list \<Rightarrow> int \<Rightarrow> 'a list" where
  "slice_to xs n =
     (if n < 0 then take (nat (int (length xs) + n)) xs else take (nat n) xs)"

definition getBest :: "arith \<Rightarrow> channel list \<Rightarrow> int \<Rightarrow> real \<Rightarrow> error + channel list" where
  "getBest fp self nchannels max_freq_err =
     (case while_loop fp max_freq_err self of
        Inl e \<Rightarrow> Inl e
      | Inr channels \<Rightarrow> Inr (slice_to (sort_key (\<lambda>c. - power_of c) channels) nchannels))"

text \<open>
  The same loop with a bound on the number of times its body may run: \<open>None\<close> when
  the bound is used up before the loop has ended.
\<close>

fun while_fuel ::
  "arith \<Rightarrow> real \<Rightarrow> nat \<Rightarrow> channel list \<Rightarrow> (error + channel list) option"
where
  "while_fuel fp max_freq_err k [] = Some (Inr [])"
| "while_fuel fp max_freq_err 0 (c # cs) = None"
| "while_fuel fp max_freq_err (Suc k) (c # cs) =
     (case while_body fp max_freq_err (c # cs) of
        Break \<Rightarrow> Some (Inr (c # cs))
      | Raise e \<Rightarrow> Some (Inl e)
      | Next channels' \<Rightarrow> while_fuel fp max_freq_err k channels')"

subsection \<open>List objects and aliasing\<close>

text \<open>
  \<^verbatim>\<open>getBest\<close> works on list objects: \<^verbatim>\<open>self[:]\<close> makes a new list,
  \<^verbatim>\<open>pop\<close> and \<^verbatim>\<open>sort\<close> change a list in place, and the final slice makes
  another new list. The heap maps the address of a list object to its content; the
  records themselves are tuples, which Python cannot change.
\<close>

type_synonym addr = nat

record heap =
  cells :: "addr \<Rightarrow> channel list"
  used :: nat

definition alloc :: "heap \<Rightarrow> channel list \<Rightarrow> addr \<times> heap" where
  "alloc h v = (used h, h\<lparr>cells := (cells h)(used h := v), used := Suc (used h)\<rparr>)"

definition store :: "heap \<Rightarrow> addr \<Rightarrow> channel list \<Rightarrow> heap" where
  "store h a v = h\<lparr>cells := (cells h)(a := v)\<rparr>"

function while_heap :: "arith \<Rightarrow> real \<Rightarrow> addr \<Rightarrow> heap \<Rightarrow> error + heap" where
  "while_heap fp max_freq_err channels h =
     (if cells h channels = [] then Inr h
      else (case while_body fp max_freq_err (cells h channels) of
              Break \<Rightarrow> Inr h
            | Raise e \<Rightarrow> Inl e
            | Next channels' \<Rightarrow>
                while_heap fp max_freq_err channels (store h channels channels')))"
  by pat_completeness auto
termination
  by (relation "measure (\<lambda>(fp, t, a, h). length (cells h a))")
     (auto simp: store_def dest: while_body_length)

declare while_heap.simps [simp del]

definition getBest_heap ::
  "arith \<Rightarrow> heap \<Rightarrow> addr \<Rightarrow> int \<Rightarrow> real \<Rightarrow> error + addr \<times> heap"
where
  "getBest_heap fp h self nchannels max_freq_err =
     (case alloc h (cells h self) of
        (channels, h1) \<Rightarrow>
          (case while_heap fp max_freq_err channels h1 of
             Inl e \<Rightarrow> Inl e
           | Inr h2 \<Rightarrow>
               (let h3 = store h2 channels (sort_key (\<lambda>c. - power_of c) (cells h2 channels))
                in Inr (alloc h3 (slice_to (cells h3 channels) nchannels)))))"

section \<open>The specification's words\<close>

subsection \<open>The selection algorithm as the specification words it\<close>

text \<open>
  A second definition, following the specification and not the code: the mean of the
  remaining candidates' deviations, the largest absolute distance from it, the first
  candidate at that distance, its removal, repeated until the largest distance is below
  the threshold or no candidate is left; then the survivors by descending power, and
  the first \<open>n\<close> of them. The mean and the distances are computed in the arithmetic
  of floats.
\<close>

definition mean_deviation :: "arith \<Rightarrow> channel list \<Rightarrow> real" where
  "mean_deviation fp cs = f_div fp (f_sum fp (map deviation_of cs)) (real (length cs))"

definition distance :: "arith \<Rightarrow> channel list \<Rightarrow> channel \<Rightarrow> real" where
  "distance fp cs c = \<bar>f_sub fp (deviation_of c) (mean_deviation fp cs)\<bar>"

definition largest_distance :: "arith \<Rightarrow> channel list \<Rightarrow> real" where
  "largest_distance fp cs = Max (set (map (distance fp cs) cs))"

definition worst_offender :: "arith \<Rightarrow> channel list \<Rightarrow> nat" where
  "worst_offender fp cs =
     length (takeWhile (\<lambda>c. distance fp cs c < largest_distance fp cs) cs)"

definition remove_at :: "nat \<Rightarrow> 'a list \<Rightarrow> 'a list" where
  "remove_at i xs = take i xs @ drop (Suc i) xs"

lemma takeWhile_stops: "x \<in> set xs \<Longrightarrow> \<not> P x \<Longrightarrow> length (takeWhile P xs) < length xs"
  by (induction xs) auto

lemma largest_distance_attained:
  assumes "cs \<noteq> []"
  shows "\<exists>c\<in>set cs. distance fp cs c = largest_distance fp cs"
proof -
  have "Max (set (map (distance fp cs) cs)) \<in> set (map (distance fp cs) cs)"
    using assms by (intro Max_in) auto
  then show ?thesis
    by (auto simp: largest_distance_def)
qed

lemma worst_offender_less: 
  assumes "cs \<noteq> []" shows "worst_offender fp cs < length cs"
proof -
  obtain c where c: "c \<in> set cs" "distance fp cs c = largest_distance fp cs"
    using largest_distance_attained [OF assms] by blast
  then have "\<not> distance fp cs c < largest_distance fp cs" by simp
  with c(1) show ?thesis
    unfolding worst_offender_def by (rule takeWhile_stops)
qed

lemma remove_worst_length:
  "cs \<noteq> [] \<Longrightarrow> length (remove_at (worst_offender fp cs) cs) < length cs"
  using worst_offender_less [of cs fp] by (simp add: remove_at_def)

function consistent_set :: "arith \<Rightarrow> real \<Rightarrow> channel list \<Rightarrow> channel list" where
  "consistent_set fp t cs =
     (if cs = [] then []
      else if largest_distance fp cs < t then cs
      else consistent_set fp t (remove_at (worst_offender fp cs) cs))"
  by pat_completeness auto
termination
  by (relation "measure (\<lambda>(fp, t, cs). length cs)")
     (auto simp: remove_worst_length)

declare consistent_set.simps [simp del]

definition getBest_ref :: "arith \<Rightarrow> channel list \<Rightarrow> nat \<Rightarrow> real \<Rightarrow> channel list" where
  "getBest_ref fp cs n t = take n (sort_key (\<lambda>c. - power_of c) (consistent_set fp t cs))"

text \<open>
  The invariant of the scan for the worst candidate, after \<open>k\<close> candidates, \<open>d\<close>
  giving the distance of each: the running maximum is not below any distance seen and
  not negative, and either nothing has exceeded 0 and the index is still \<open>-1\<close>, or the
  index is that of the first candidate at the running maximum, which is positive.
\<close>

definition scan_inv :: "(nat \<Rightarrow> real) \<Rightarrow> nat \<Rightarrow> real \<times> int \<Rightarrow> bool" where
  "scan_inv d k acc =
     ((\<forall>j<k. d j \<le> fst acc) \<and> 0 \<le> fst acc \<and>
      ((snd acc = -1 \<and> fst acc = 0) \<or>
       (0 \<le> snd acc \<and> nat (snd acc) < k \<and> d (nat (snd acc)) = fst acc \<and> 0 < fst acc \<and>
        (\<forall>j<nat (snd acc). d j < fst acc))))"

subsection \<open>The aggregate as the specification words it\<close>

text \<open>
  The power-weighted mean of the measured values, and the largest absolute difference
  between a measured value and a given mean.
\<close>

definition weighted_mean :: "real list \<Rightarrow> channel list \<Rightarrow> real" where
  "weighted_mean ppms channels =
     sum_list (map (\<lambda>(p, ch). p * power_of ch) (zip ppms channels))
       / sum_list (map power_of channels)"

definition max_abs_dev :: "real list \<Rightarrow> real \<Rightarrow> real" where
  "max_abs_dev ppms m = Max ((\<lambda>p. \<bar>p - m\<bar>) ` set ppms)"

subsection \<open>The formats as the specification words them\<close>

text \<open>
  A run of decimal digits, a fixed-point literal \<open>digits.digits\<close> with its value, and
  a data line of the scan output: label, channel number, frequency in MHz, signed
  deviation in kHz, and power.
\<close>

definition all_digits :: "string \<Rightarrow> bool" where
  "all_digits s = (s \<noteq> [] \<and> list_all isdigit s)"

definition fixed_lit :: "string \<Rightarrow> string \<Rightarrow> string" where
  "fixed_lit ip fr = ip @ ''.'' @ fr"

definition fixed_val :: "string \<Rightarrow> string \<Rightarrow> real" where
  "fixed_val ip fr = real (digits_val ip) + real (digits_val fr) / 10 ^ length fr"

definition data_line ::
  "string \<Rightarrow> string \<Rightarrow> string \<times> string \<Rightarrow> char \<Rightarrow> string \<times> string \<Rightarrow> string \<times> string \<Rightarrow> string"
where
  "data_line X N F sg D P =
     X @ '': '' @ N @ '' ('' @ fixed_lit (fst F) (snd F) @ ''MHz'' @ [sg]
       @ fixed_lit (fst D) (snd D) @ ''kHz) power: '' @ fixed_lit (fst P) (snd P)"

text \<open>
  What a saved record is expected to be when read back: band and channel as they were;
  for frequency and deviation the double of the value written with six decimals, for
  power with two, the sign kept. \<open>decimal p x\<close> is the magnitude of \<open>x\<close> written
  with \<open>p\<close> decimals; a record is \<open>readable\<close> when none of the three magnitudes
  written is too large for a double; \<open>conversion_error\<close> is the distance between a
  value written and its double. \<open>BANDS\<close> are the band names of the specification.
  \<open>numeric\<close> holds of the texts made of digits, points and minus signs.
\<close>

definition decimal :: "nat \<Rightarrow> real \<Rightarrow> real" where
  "decimal p x = of_int (round_half_even (\<bar>x\<bar> * 10 ^ p)) / 10 ^ p"

definition rounded :: "arith \<Rightarrow> nat \<Rightarrow> real \<Rightarrow> real" where
  "rounded fp p x =
     (if x < 0 then - to_double fp (decimal p x) else to_double fp (decimal p x))"

definition reloaded :: "arith \<Rightarrow> channel \<Rightarrow> channel" where
  "reloaded fp c =
     (band_of c, channel_of c, rounded fp 6 (frequency_of c), rounded fp 6 (deviation_of c),
      rounded fp 2 (power_of c))"

definition readable :: "arith \<Rightarrow> channel \<Rightarrow> bool" where
  "readable fp c =
     (\<not> (overflows fp (decimal 6 (frequency_of c)) \<or> overflows fp (decimal 6 (deviation_of c))
         \<or> overflows fp (decimal 2 (power_of c))))"

definition conversion_error :: "arith \<Rightarrow> real \<Rightarrow> real" where
  "conversion_error fp v = \<bar>to_double fp v - v\<bar>"

definition BANDS :: "string list" where
  "BANDS = [''GSM850'', ''GSM-R'', ''GSM900'', ''EGSM'', ''DCS'', ''PCS'']"

definition numeric :: "string \<Rightarrow> bool" where
  "numeric s = (\<forall>c\<in>set s. isdigit c \<or> c = CHR ''.'' \<or> c = CHR ''-'')"

subsection \<open>Arithmetic that is accurate on small numbers\<close>

text \<open>
  The arithmetic of IEEE 754 doubles returns, for each operation, the double nearest to
  the exact result, which differs from it by less than one part in \<open>2 ^ 53\<close> unless the
  result is too small or too large to be a normal double. \<open>accurate fp e\<close> asks much
  less of \<open>fp\<close>: on at most three numbers of absolute value at most 16 the sum is within
  \<open>e\<close> of the exact sum, and so are the quotient of a number of absolute value at most 64
  by 2 or 3, and the difference of two numbers of absolute value at most 16.
\<close>

definition accurate :: "arith \<Rightarrow> real \<Rightarrow> bool" where
  "accurate fp e =
     ((\<forall>xs. length xs \<le> 3 \<and> (\<forall>x\<in>set xs. \<bar>x\<bar> \<le> 16) \<longrightarrow> \<bar>f_sum fp xs - sum_list xs\<bar> \<le> e) \<and>
      (\<forall>x n. \<bar>x\<bar> \<le> 64 \<and> (n = 2 \<or> n = 3) \<longrightarrow> \<bar>f_div fp x (real n) - x / real n\<bar> \<le> e) \<and>
      (\<forall>x y. \<bar>x\<bar> \<le> 16 \<and> \<bar>y\<bar> \<le> 16 \<longrightarrow> \<bar>f_sub fp x y - (x - y)\<bar> \<le> e))"

section \<open>Properties of the sequencing of steps\<close>

lemma bind_Inr [simp]: "bind (Inr x) f = f x"
  by (simp add: bind_def)

lemma bind_Inl [simp]: "bind (Inl e) f = Inl e"
  by (simp add: bind_def)

lemma bind_eq_Inr: "bind m f = Inr y \<longleftrightarrow> (\<exists>x. m = Inr x \<and> f x = Inr y)"
  by (cases m) simp_all

lemma bind_eq_Inl: "bind m f = Inl e \<longleftrightarrow> m = Inl e \<or> (\<exists>x. m = Inr x \<and> f x = Inl e)"
  by (cases m) simp_all

section \<open>Properties of the channel selection\<close>

lemma scan_inv_init: "scan_inv d 0 (0, -1)"
  by (simp add: scan_inv_def)

lemma scan_inv_keep:
  assumes "scan_inv d k acc" "\<not> d k > fst acc"
  shows "scan_inv d (Suc k) acc"
  using assms unfolding scan_inv_def
  by (metis less_Suc_eq not_less)

lemma scan_inv_update:
  assumes "scan_inv d k acc" "d k > fst acc"
  shows "scan_inv d (Suc k) (d k, int k)"
proof -
  have le: "\<forall>j<k. d j \<le> fst acc" and nn: "0 \<le> fst acc"
    using assms(1) by (simp_all add: scan_inv_def)
  have a: "\<forall>j<Suc k. d j \<le> d k"
    using le assms(2) by (auto simp: less_Suc_eq intro: less_imp_le order_trans)
  have b: "\<forall>j<k. d j < d k"
    using le assms(2) by (auto intro: le_less_trans)
  have c: "0 < d k" using nn assms(2) by simp
  show ?thesis
    unfolding scan_inv_def using a b c by simp
qed

lemma worst_prefix:
  "scan_inv (\<lambda>j. \<bar>f_sub fp (deviation_of (cs ! j)) m\<bar>) k (foldl (for_body fp cs m) (0, -1) [0..<k])"
proof (induction k)
  case 0
  show ?case by (simp add: scan_inv_init)
next
  case (Suc k)
  let ?acc = "foldl (for_body fp cs m) (0, -1) [0..<k]"
  have step: "foldl (for_body fp cs m) (0, -1) [0..<Suc k] = for_body fp cs m ?acc k"
    by simp
  show ?case
  proof (cases "\<bar>f_sub fp (deviation_of (cs ! k)) m\<bar> > fst ?acc")
    case True
    then have "for_body fp cs m ?acc k = (\<bar>f_sub fp (deviation_of (cs ! k)) m\<bar>, int k)"
      by (simp add: for_body_def)
    then show ?thesis
      unfolding step using scan_inv_update [OF Suc.IH True] by simp
  next
    case False
    then have "for_body fp cs m ?acc k = ?acc"
      by (simp add: for_body_def)
    then show ?thesis
      unfolding step using scan_inv_keep [OF Suc.IH False] by simp
  qed
qed

lemma worst_inv: "scan_inv (\<lambda>j. \<bar>f_sub fp (deviation_of (cs ! j)) m\<bar>) (length cs) (worst fp cs m)"
  unfolding worst_def by (rule worst_prefix)

lemma f_mean_of_eq: "cs \<noteq> [] \<Longrightarrow> f_mean_of fp cs = Inr (mean_deviation fp cs)"
  by (simp add: f_mean_of_def mean_deviation_def)

lemma worst_fst:
  assumes ne: "cs \<noteq> []"
  shows "fst (worst fp cs (mean_deviation fp cs)) = largest_distance fp cs"
proof -
  let ?w = "worst fp cs (mean_deviation fp cs)"
  let ?d = "\<lambda>j. \<bar>f_sub fp (deviation_of (cs ! j)) (mean_deviation fp cs)\<bar>"
  have inv: "scan_inv ?d (length cs) ?w" by (rule worst_inv)
  have ub: "\<forall>j<length cs. ?d j \<le> fst ?w"
    using inv by (simp add: scan_inv_def)
  have "\<exists>j<length cs. ?d j = fst ?w"
  proof (cases "snd ?w = -1 \<and> fst ?w = 0")
    case True
    have "0 < length cs" using ne by simp
    moreover have "?d 0 \<le> 0" using ub True ne by auto
    then have "?d 0 = fst ?w" using True by simp
    ultimately show ?thesis by blast
  next
    case False
    then have "nat (snd ?w) < length cs \<and> ?d (nat (snd ?w)) = fst ?w"
      using inv unfolding scan_inv_def by blast
    then show ?thesis by blast
  qed
  then obtain j where j: "j < length cs" "?d j = fst ?w" by blast
  have "Max (set (map (distance fp cs) cs)) = fst ?w"
  proof (rule Max_eqI)
    show "finite (set (map (distance fp cs) cs))" by simp
  next
    fix y assume "y \<in> set (map (distance fp cs) cs)"
    then obtain k where "k < length cs" "y = distance fp cs (cs ! k)"
      by (auto simp: in_set_conv_nth)
    then show "y \<le> fst ?w" using ub by (simp add: distance_def)
  next
    have "distance fp cs (cs ! j) \<in> set (map (distance fp cs) cs)"
      using j(1) by simp
    then show "fst ?w \<in> set (map (distance fp cs) cs)"
      using j(2) by (simp add: distance_def)
  qed
  then show ?thesis by (simp add: largest_distance_def)
qed

lemma worst_snd:
  assumes ne: "cs \<noteq> []" and pos: "0 < largest_distance fp cs"
  shows "snd (worst fp cs (mean_deviation fp cs)) = int (worst_offender fp cs)"
proof -
  let ?w = "worst fp cs (mean_deviation fp cs)"
  let ?d = "\<lambda>j. \<bar>f_sub fp (deviation_of (cs ! j)) (mean_deviation fp cs)\<bar>"
  have inv: "scan_inv ?d (length cs) ?w" by (rule worst_inv)
  have e: "fst ?w = largest_distance fp cs" by (rule worst_fst [OF ne])
  with pos have "\<not> (snd ?w = -1 \<and> fst ?w = 0)" by simp
  with inv have i: "0 \<le> snd ?w" "nat (snd ?w) < length cs" "?d (nat (snd ?w)) = fst ?w"
    "\<forall>j<nat (snd ?w). ?d j < fst ?w"
    unfolding scan_inv_def by blast+
  have "takeWhile (\<lambda>c. distance fp cs c < largest_distance fp cs) cs = take (nat (snd ?w)) cs"
  proof (rule takeWhile_eq_take_P_nth)
    fix j assume "j < nat (snd ?w)" "j < length cs"
    then show "distance fp cs (cs ! j) < largest_distance fp cs"
      using i(4) e by (simp add: distance_def)
  next
    show "\<not> distance fp cs (cs ! nat (snd ?w)) < largest_distance fp cs"
      using i(3) e by (simp add: distance_def)
  qed
  then have "worst_offender fp cs = nat (snd ?w)"
    using i(2) by (simp add: worst_offender_def)
  then show ?thesis using i(1) by simp
qed

lemma pop_nat: "i < length xs \<Longrightarrow> pop xs (int i) = Inr (remove_at i xs)"
  by (simp add: pop_def remove_at_def)

lemma while_body_pos:
  assumes ne: "cs \<noteq> []" and t: "0 < t"
  shows "while_body fp t cs =
           (if largest_distance fp cs < t then Break
            else Next (remove_at (worst_offender fp cs) cs))"
proof (cases "largest_distance fp cs < t")
  case True
  then have "fst (worst fp cs (mean_deviation fp cs)) < t"
    using worst_fst [OF ne] by simp
  then show ?thesis
    using True by (auto simp: while_body_def f_mean_of_eq [OF ne] split: prod.splits)
next
  case False
  then have pos: "0 < largest_distance fp cs" using t by simp
  have w: "worst fp cs (mean_deviation fp cs) = (largest_distance fp cs, int (worst_offender fp cs))"
    using worst_fst [OF ne] worst_snd [OF ne pos] by (simp add: prod_eq_iff)
  show ?thesis
    using False
    by (simp add: while_body_def f_mean_of_eq [OF ne] w pop_nat worst_offender_less [OF ne])
qed

lemma while_loop_pos: "0 < t \<Longrightarrow> while_loop fp t cs = Inr (consistent_set fp t cs)"
proof (induction fp t cs rule: consistent_set.induct)
  case (1 fp t cs)
  show ?case
  proof (cases "cs = []")
    case True
    then show ?thesis by (simp add: while_loop.simps consistent_set.simps)
  next
    case ne: False
    show ?thesis
    proof (cases "largest_distance fp cs < t")
      case True
      then show ?thesis
        using ne "1.prems"
        by (simp add: while_loop.simps [of fp t cs] consistent_set.simps [of fp t cs] while_body_pos)
    next
      case False
      then show ?thesis
        using ne "1.prems" "1.IH"
        by (simp add: while_loop.simps [of fp t cs] consistent_set.simps [of fp t cs] while_body_pos)
    qed
  qed
qed

lemma largest_distance_nonneg: "cs \<noteq> [] \<Longrightarrow> 0 \<le> largest_distance fp cs"
  using largest_distance_attained [of cs fp] by (auto simp: distance_def)

lemma while_body_nonpos:
  assumes ne: "cs \<noteq> []" and t: "t \<le> 0"
  shows "\<exists>cs'. while_body fp t cs = Next cs'"
proof -
  let ?w = "worst fp cs (mean_deviation fp cs)"
  let ?d = "\<lambda>j. \<bar>f_sub fp (deviation_of (cs ! j)) (mean_deviation fp cs)\<bar>"
  have inv: "scan_inv ?d (length cs) ?w" by (rule worst_inv)
  then have nn: "\<not> fst ?w < t" using t by (simp add: scan_inv_def)
  have "snd ?w = -1 \<or> (0 \<le> snd ?w \<and> nat (snd ?w) < length cs)"
    using inv unfolding scan_inv_def by blast
  then have "\<exists>cs'. pop cs (snd ?w) = Inr cs'"
    using ne by (auto simp: pop_def Let_def)
  then show ?thesis
    using nn by (auto simp: while_body_def f_mean_of_eq [OF ne] split: prod.splits)
qed

lemma while_loop_nonpos: "t \<le> 0 \<Longrightarrow> while_loop fp t cs = Inr []"
proof (induction cs rule: length_induct)
  case (1 cs)
  show ?case
  proof (cases "cs = []")
    case True
    then show ?thesis by (simp add: while_loop.simps)
  next
    case False
    then obtain cs' where b: "while_body fp t cs = Next cs'"
      using while_body_nonpos "1.prems" by blast
    then have "length cs' < length cs"
      using while_body_length by fastforce
    then have "while_loop fp t cs' = Inr []" using 1 by blast
    then show ?thesis using False b by (simp add: while_loop.simps [of fp t cs])
  qed
qed

lemma consistent_set_nonpos: "t \<le> 0 \<Longrightarrow> consistent_set fp t cs = []"
proof (induction fp t cs rule: consistent_set.induct)
  case (1 fp t cs)
  show ?case
  proof (cases "cs = []")
    case True
    then show ?thesis by (simp add: consistent_set.simps)
  next
    case False
    then have "\<not> largest_distance fp cs < t"
      using largest_distance_nonneg [of cs fp] "1.prems" by simp
    then show ?thesis
      using False 1 by (simp add: consistent_set.simps [of fp t cs])
  qed
qed

lemma while_loop_eq: "while_loop fp t cs = Inr (consistent_set fp t cs)"
  by (cases "0 < t") (simp_all add: while_loop_pos while_loop_nonpos consistent_set_nonpos)

subsection \<open>Shrinking, termination and totality\<close>

lemma pop_remove:
  assumes "pop xs i = Inr ys"
  shows "\<exists>j<length xs. ys = remove_at j xs"
proof -
  define j where "j = nat (if i < 0 then i + int (length xs) else i)"
  from assms have "j < length xs \<and> ys = remove_at j xs"
    by (auto simp: pop_def Let_def remove_at_def j_def split: if_splits)
  then show ?thesis by blast
qed

lemma while_body_remove:
  "while_body fp t cs = Next cs' \<Longrightarrow> \<exists>j<length cs. cs' = remove_at j cs"
  by (auto simp: while_body_def split: sum.splits prod.splits if_splits dest: pop_remove)

lemma while_fuel_enough: "length cs \<le> k \<Longrightarrow> while_fuel fp t k cs = Some (while_loop fp t cs)"
proof (induction k arbitrary: cs)
  case 0
  then show ?case by (simp add: while_loop.simps)
next
  case (Suc k)
  show ?case
  proof (cases cs)
    case Nil
    then show ?thesis by (simp add: while_loop.simps)
  next
    case (Cons c cs0)
    have wl: "while_loop fp t cs =
                (case while_body fp t cs of Break \<Rightarrow> Inr cs | Raise e \<Rightarrow> Inl e
                 | Next cs' \<Rightarrow> while_loop fp t cs')"
      using Cons by (subst while_loop.simps) simp
    have wf: "while_fuel fp t (Suc k) cs =
                (case while_body fp t cs of Break \<Rightarrow> Some (Inr cs) | Raise e \<Rightarrow> Some (Inl e)
                 | Next cs' \<Rightarrow> while_fuel fp t k cs')"
      unfolding Cons by simp
    show ?thesis
    proof (cases "while_body fp t cs")
      case Break
      then show ?thesis by (simp add: wl wf)
    next
      case (Raise e)
      then show ?thesis by (simp add: wl wf)
    next
      case (Next cs')
      then have "length cs' \<le> k"
        using while_body_length [OF Next] Suc.prems by simp
      then have "while_fuel fp t k cs' = Some (while_loop fp t cs')" by (rule Suc.IH)
      then show ?thesis using Next by (simp add: wl wf)
    qed
  qed
qed

lemma remove_at_mset: "i < length xs \<Longrightarrow> mset (remove_at i xs) \<subseteq># mset xs"
proof -
  assume "i < length xs"
  then have "xs = take i xs @ xs ! i # drop (Suc i) xs"
    by (simp add: id_take_nth_drop)
  then have "mset xs = mset (remove_at i xs) + {#xs ! i#}"
    unfolding remove_at_def by (metis add.commute mset.simps(2) mset_append union_mset_add_mset_right add_mset_add_single union_assoc)
  then show ?thesis by simp
qed

lemma consistent_set_mset: "mset (consistent_set fp t cs) \<subseteq># mset cs"
proof (induction fp t cs rule: consistent_set.induct)
  case (1 fp t cs)
  show ?case
  proof (cases "cs = [] \<or> largest_distance fp cs < t")
    case True
    then show ?thesis by (auto simp: consistent_set.simps [of fp t cs])
  next
    case False
    then have "mset (consistent_set fp t (remove_at (worst_offender fp cs) cs))
                 \<subseteq># mset (remove_at (worst_offender fp cs) cs)"
      using 1 by simp
    also have "\<dots> \<subseteq># mset cs"
      using False by (simp add: remove_at_mset worst_offender_less)
    finally show ?thesis
      using False by (simp add: consistent_set.simps [of fp t cs])
  qed
qed

lemma slice_to_mset: "mset (slice_to xs n) \<subseteq># mset xs"
proof -
  have "\<And>k. mset (take k xs) \<subseteq># mset xs"
    by (metis append_take_drop_id mset_append mset_subset_eq_add_left)
  then show ?thesis by (simp add: slice_to_def)
qed

lemma getBest_total: "\<exists>r. getBest fp cs n t = Inr r \<and> mset r \<subseteq># mset cs"
proof -
  let ?s = "sort_key (\<lambda>c. - power_of c) (consistent_set fp t cs)"
  have "getBest fp cs n t = Inr (slice_to ?s n)"
    by (simp add: getBest_def while_loop_eq)
  moreover have "mset (slice_to ?s n) \<subseteq># mset ?s" by (rule slice_to_mset)
  then have "mset (slice_to ?s n) \<subseteq># mset cs"
    using consistent_set_mset [of fp t cs] by (simp add: subset_mset.order_trans)
  ultimately show ?thesis by blast
qed

subsection \<open>The loop on the heap\<close>

lemma store_cells_same: "cells (store h a v) a = v"
  by (simp add: store_def)

lemma store_cells_other: "b \<noteq> a \<Longrightarrow> cells (store h a v) b = cells h b"
  by (simp add: store_def)

lemma store_used: "used (store h a v) = used h"
  by (simp add: store_def)

lemma store_store: "store (store h a v) a w = store h a w"
  by (simp add: store_def)

lemma store_same: "store h a (cells h a) = h"
  by (simp add: store_def)

lemma while_heap_eq:
  "while_heap fp t a h =
     (case while_loop fp t (cells h a) of Inl e \<Rightarrow> Inl e | Inr cs \<Rightarrow> Inr (store h a cs))"
proof (induction fp t a h rule: while_heap.induct)
  case (1 fp t a h)
  have wh: "while_heap fp t a h =
     (if cells h a = [] then Inr h
      else (case while_body fp t (cells h a) of
              Break \<Rightarrow> Inr h
            | Raise e \<Rightarrow> Inl e
            | Next cs' \<Rightarrow> while_heap fp t a (store h a cs')))"
    by (rule while_heap.simps)
  have wl: "while_loop fp t (cells h a) =
     (if cells h a = [] then Inr (cells h a)
      else (case while_body fp t (cells h a) of
              Break \<Rightarrow> Inr (cells h a)
            | Raise e \<Rightarrow> Inl e
            | Next cs' \<Rightarrow> while_loop fp t cs'))"
    by (rule while_loop.simps)
  show ?case
  proof (cases "cells h a = []")
    case True
    then show ?thesis
      unfolding wh wl using store_same [of h a] by simp
  next
    case ne: False
    show ?thesis
    proof (cases "while_body fp t (cells h a)")
      case Break
      then show ?thesis
        unfolding wh wl using ne by (simp add: store_same)
    next
      case (Raise e)
      then show ?thesis
        unfolding wh wl using ne by simp
    next
      case (Next cs')
      have "while_heap fp t a (store h a cs') =
              (case while_loop fp t cs' of Inl e \<Rightarrow> Inl e | Inr cs \<Rightarrow> Inr (store h a cs))"
        using "1.IH" [OF ne Next] by (simp add: store_cells_same store_store split: sum.splits)
      then show ?thesis
        unfolding wh wl using ne Next by simp
    qed
  qed
qed

lemma getBest_heap_eq:
  "getBest_heap fp h self n t =
     (let a = used h;
          h1 = h\<lparr>cells := (cells h)(a := cells h self), used := Suc a\<rparr>;
          s = sort_key (\<lambda>c. - power_of c) (consistent_set fp t (cells h self));
          h3 = store h1 a s
      in Inr (Suc a, h3\<lparr>cells := (cells h3)(Suc a := slice_to s n), used := Suc (Suc a)\<rparr>))"
  by (simp add: getBest_heap_def alloc_def while_heap_eq while_loop_eq Let_def store_def)

subsection \<open>The first candidate at the largest distance\<close>

lemma worst_offender_first:
  assumes "cs \<noteq> []"
  shows "distance fp cs (cs ! worst_offender fp cs) = largest_distance fp cs"
    and "\<forall>j<worst_offender fp cs. distance fp cs (cs ! j) < largest_distance fp cs"
proof -
  let ?P = "\<lambda>c. distance fp cs c < largest_distance fp cs"
  have lt: "worst_offender fp cs < length cs" using assms by (rule worst_offender_less)
  then have "\<not> ?P (cs ! worst_offender fp cs)"
    unfolding worst_offender_def by (rule nth_length_takeWhile)
  moreover have "distance fp cs (cs ! worst_offender fp cs) \<le> largest_distance fp cs"
    unfolding largest_distance_def using lt by (intro Max_ge) auto
  ultimately show "distance fp cs (cs ! worst_offender fp cs) = largest_distance fp cs"
    by simp
  show "\<forall>j<worst_offender fp cs. distance fp cs (cs ! j) < largest_distance fp cs"
  proof (intro allI impI)
    fix j assume j: "j < worst_offender fp cs"
    then have "takeWhile ?P cs ! j = cs ! j"
      unfolding worst_offender_def by (rule takeWhile_nth)
    moreover have "takeWhile ?P cs ! j \<in> set (takeWhile ?P cs)"
      using j unfolding worst_offender_def by (rule nth_mem)
    then have "?P (takeWhile ?P cs ! j)" by (rule set_takeWhileD [THEN conjunct2])
    ultimately show "distance fp cs (cs ! j) < largest_distance fp cs" by simp
  qed
qed

subsection \<open>The scenario of the specification\<close>

lemma accurate_exact: "0 \<le> e \<Longrightarrow> accurate exact_arith e"
  by (simp add: accurate_def exact_arith_def)

lemma accurate_sum:
  "accurate fp e \<Longrightarrow> length xs \<le> 3 \<Longrightarrow> \<forall>x\<in>set xs. \<bar>x\<bar> \<le> 16 \<Longrightarrow> \<bar>f_sum fp xs - sum_list xs\<bar> \<le> e"
  unfolding accurate_def by blast

lemma accurate_div:
  "accurate fp e \<Longrightarrow> \<bar>x\<bar> \<le> 64 \<Longrightarrow> n = 2 \<or> n = 3 \<Longrightarrow> \<bar>f_div fp x (real n) - x / real n\<bar> \<le> e"
  unfolding accurate_def by blast

lemma accurate_sub:
  "accurate fp e \<Longrightarrow> \<bar>x\<bar> \<le> 16 \<Longrightarrow> \<bar>y\<bar> \<le> 16 \<Longrightarrow> \<bar>f_sub fp x y - (x - y)\<bar> \<le> e"
  unfolding accurate_def by blast

lemma scenario_first_round:
  fixes c1 c2 c3 :: channel
  assumes acc: "accurate fp (1 / 1000)"
    and d1: "\<bar>d1 - 1 / 10\<bar> \<le> 1 / 1000" and d2: "\<bar>d2 - 5 / 10\<bar> \<le> 1 / 1000"
    and d3: "\<bar>d3 - 5\<bar> \<le> 1 / 1000" and t: "\<bar>t - 6 / 10\<bar> \<le> 1 / 1000"
    and c1: "deviation_of c1 = d1" and c2: "deviation_of c2 = d2" and c3: "deviation_of c3 = d3"
  shows "while_body fp t [c1, c2, c3] = Next [c1, c2]"
proof -
  let ?cs = "[c1, c2, c3]"
  define s where "s = f_sum fp [d1, d2, d3]"
  define m where "m = f_div fp s (real 3)"
  define x1 where "x1 = f_sub fp d1 m"
  define x2 where "x2 = f_sub fp d2 m"
  define x3 where "x3 = f_sub fp d3 m"
  have r1: "99 / 1000 \<le> d1 \<and> d1 \<le> 101 / 1000" using d1 by linarith
  have r2: "499 / 1000 \<le> d2 \<and> d2 \<le> 501 / 1000" using d2 by linarith
  have r3: "4999 / 1000 \<le> d3 \<and> d3 \<le> 5001 / 1000" using d3 by linarith
  have rt: "0 < t \<and> t \<le> 601 / 1000" using t by linarith
  have b: "\<bar>d1\<bar> \<le> 16" "\<bar>d2\<bar> \<le> 16" "\<bar>d3\<bar> \<le> 16"
    using r1 r2 r3 by linarith+
  then have "\<forall>x\<in>set [d1, d2, d3]. \<bar>x\<bar> \<le> 16" by simp
  from accurate_sum [OF acc _ this]
  have "\<bar>s - (d1 + d2 + d3)\<bar> \<le> 1 / 1000"
    by (simp add: s_def add.assoc)
  then have rs: "5596 / 1000 \<le> s \<and> s \<le> 5604 / 1000" using r1 r2 r3 by linarith
  then have "\<bar>s\<bar> \<le> 64" by linarith
  then have "\<bar>m - s / 3\<bar> \<le> 1 / 1000"
    using accurate_div [OF acc, of s 3] by (simp add: m_def)
  then have rm: "1864 / 1000 \<le> m \<and> m \<le> 1870 / 1000" using rs by linarith
  then have mb: "\<bar>m\<bar> \<le> 16" by linarith
  have "\<bar>x1 - (d1 - m)\<bar> \<le> 1 / 1000"
    unfolding x1_def using acc b(1) mb by (rule accurate_sub)
  then have q1: "\<bar>x1\<bar> \<le> 2" using r1 rm by linarith
  have "\<bar>x2 - (d2 - m)\<bar> \<le> 1 / 1000"
    unfolding x2_def using acc b(2) mb by (rule accurate_sub)
  then have q2: "\<bar>x2\<bar> \<le> 2" using r2 rm by linarith
  have "\<bar>x3 - (d3 - m)\<bar> \<le> 1 / 1000"
    unfolding x3_def using acc b(3) mb by (rule accurate_sub)
  then have q3: "3 \<le> \<bar>x3\<bar>" using r3 rm by linarith
  have mm: "mean_deviation fp ?cs = m"
    by (simp add: mean_deviation_def m_def s_def c1 c2 c3)
  have D1: "distance fp ?cs c1 = \<bar>x1\<bar>" and D2: "distance fp ?cs c2 = \<bar>x2\<bar>"
    and D3: "distance fp ?cs c3 = \<bar>x3\<bar>"
    by (simp_all add: distance_def mm c1 c2 c3 x1_def x2_def x3_def)
  have l1: "\<bar>x1\<bar> < \<bar>x3\<bar>" using q1 q3 by linarith
  have l2: "\<bar>x2\<bar> < \<bar>x3\<bar>" using q2 q3 by linarith
  have l3: "\<not> \<bar>x3\<bar> < t" using q3 rt by linarith
  have L: "largest_distance fp ?cs = \<bar>x3\<bar>"
    using l1 l2 by (simp add: largest_distance_def D1 D2 D3 max_def)
  have W: "worst_offender fp ?cs = 2"
    using l1 l2 by (simp add: worst_offender_def L D1 D2 D3)
  have tp: "0 < t" using rt by simp
  have "while_body fp t ?cs = Next (remove_at 2 ?cs)"
    using l3 by (simp add: while_body_pos [OF _ tp] L W)
  then show ?thesis by (simp add: remove_at_def)
qed

lemma scenario_second_round:
  fixes c1 c2 :: channel
  assumes acc: "accurate fp (1 / 1000)"
    and d1: "\<bar>d1 - 1 / 10\<bar> \<le> 1 / 1000" and d2: "\<bar>d2 - 5 / 10\<bar> \<le> 1 / 1000"
    and t: "\<bar>t - 6 / 10\<bar> \<le> 1 / 1000"
    and c1: "deviation_of c1 = d1" and c2: "deviation_of c2 = d2"
  shows "while_body fp t [c1, c2] = Break"
proof -
  let ?cs = "[c1, c2]"
  define s where "s = f_sum fp [d1, d2]"
  define m where "m = f_div fp s (real 2)"
  define x1 where "x1 = f_sub fp d1 m"
  define x2 where "x2 = f_sub fp d2 m"
  have r1: "99 / 1000 \<le> d1 \<and> d1 \<le> 101 / 1000" using d1 by linarith
  have r2: "499 / 1000 \<le> d2 \<and> d2 \<le> 501 / 1000" using d2 by linarith
  have rt: "599 / 1000 \<le> t" using t by linarith
  have b: "\<bar>d1\<bar> \<le> 16" "\<bar>d2\<bar> \<le> 16"
    using r1 r2 by linarith+
  then have "\<forall>x\<in>set [d1, d2]. \<bar>x\<bar> \<le> 16" by simp
  from accurate_sum [OF acc _ this]
  have "\<bar>s - (d1 + d2)\<bar> \<le> 1 / 1000"
    by (simp add: s_def)
  then have rs: "597 / 1000 \<le> s \<and> s \<le> 603 / 1000" using r1 r2 by linarith
  then have "\<bar>s\<bar> \<le> 64" by linarith
  then have "\<bar>m - s / 2\<bar> \<le> 1 / 1000"
    using accurate_div [OF acc, of s 2] by (simp add: m_def)
  then have rm: "297 / 1000 \<le> m \<and> m \<le> 303 / 1000" using rs by linarith
  then have mb: "\<bar>m\<bar> \<le> 16" by linarith
  have "\<bar>x1 - (d1 - m)\<bar> \<le> 1 / 1000"
    unfolding x1_def using acc b(1) mb by (rule accurate_sub)
  then have q1: "\<bar>x1\<bar> \<le> 1 / 2" using r1 rm by linarith
  have "\<bar>x2 - (d2 - m)\<bar> \<le> 1 / 1000"
    unfolding x2_def using acc b(2) mb by (rule accurate_sub)
  then have q2: "\<bar>x2\<bar> \<le> 1 / 2" using r2 rm by linarith
  have mm: "mean_deviation fp ?cs = m"
    by (simp add: mean_deviation_def m_def s_def c1 c2)
  have D1: "distance fp ?cs c1 = \<bar>x1\<bar>" and D2: "distance fp ?cs c2 = \<bar>x2\<bar>"
    by (simp_all add: distance_def mm c1 c2 x1_def x2_def)
  have l1: "\<bar>x1\<bar> < t" using q1 rt by linarith
  have l2: "\<bar>x2\<bar> < t" using q2 rt by linarith
  have L: "largest_distance fp ?cs < t"
    using l1 l2 by (simp add: largest_distance_def D1 D2)
  have tp: "0 < t" using rt by simp
  show ?thesis
    using L by (simp add: while_body_pos [OF _ tp])
qed

lemma scenario_result:
  fixes c1 c2 c3 :: channel
  assumes acc: "accurate fp (1 / 1000)"
    and d1: "\<bar>d1 - 1 / 10\<bar> \<le> 1 / 1000" and d2: "\<bar>d2 - 5 / 10\<bar> \<le> 1 / 1000"
    and d3: "\<bar>d3 - 5\<bar> \<le> 1 / 1000" and t: "\<bar>t - 6 / 10\<bar> \<le> 1 / 1000"
    and c1: "c1 = (b1, n1, f1, d1, 50)" and c2: "c2 = (b2, n2, f2, d2, 80)"
    and c3: "c3 = (b3, n3, f3, d3, 90)"
  shows "getBest fp [c1, c2, c3] 2 t = Inr [c2, c1]"
proof -
  have a: "while_body fp t [c1, c2, c3] = Next [c1, c2]"
    using acc d1 d2 d3 t by (rule scenario_first_round) (simp_all add: c1 c2 c3)
  have b: "while_body fp t [c1, c2] = Break"
    using acc d1 d2 t by (rule scenario_second_round) (simp_all add: c1 c2)
  have "while_loop fp t [c1, c2, c3] = while_loop fp t [c1, c2]"
    by (subst while_loop.simps) (simp add: a)
  also have "\<dots> = Inr [c1, c2]"
    by (subst while_loop.simps) (simp add: b)
  finally have w: "while_loop fp t [c1, c2, c3] = Inr [c1, c2]" .
  have p: "power_of c1 = 50" "power_of c2 = 80"
    by (simp_all add: c1 c2)
  have s: "sort_key (\<lambda>c. - power_of c) [c1, c2] = [c2, c1]"
    by (simp add: p)
  show ?thesis
    unfolding getBest_def w sum.case s by (simp add: slice_to_def)
qed

subsection \<open>Results on channel selection\<close>

text \<open>
  C1. For every channel list, every count \<open>n\<close> and every threshold, \<^verbatim>\<open>getBest\<close>
  returns what the reference algorithm returns: outliers removed one at a time, the one
  farthest from the mean of the remaining deviations, until the largest distance is below
  the threshold; the survivors in descending order of power; the first \<open>n\<close> of them.
  This holds whatever the arithmetic of floats returns. On the three channels of the
  scenario, with deviations 0.1, 0.5 and 5.0 and threshold 0.6 each taken to the nearest
  thousandth, \<open>n = 2\<close>, and an arithmetic accurate to a thousandth, the first run of
  the loop body removes channel 3 and the result is channel 2, then channel 1.
\<close>

theorem getBest_refines_reference:
  "getBest fp cs (int n) t = Inr (getBest_ref fp cs n t) \<and>
   (accurate fp (1 / 1000) \<and> \<bar>d1 - 1 / 10\<bar> \<le> 1 / 1000 \<and> \<bar>d2 - 5 / 10\<bar> \<le> 1 / 1000 \<and>
    \<bar>d3 - 5\<bar> \<le> 1 / 1000 \<and> \<bar>t - 6 / 10\<bar> \<le> 1 / 1000 \<longrightarrow>
      while_body fp t
        [(''GSM900'', 1, f1, d1, 50), (''GSM900'', 2, f2, d2, 80), (''GSM900'', 3, f3, d3, 90)] =
        Next [(''GSM900'', 1, f1, d1, 50), (''GSM900'', 2, f2, d2, 80)] \<and>
      getBest fp
        [(''GSM900'', 1, f1, d1, 50), (''GSM900'', 2, f2, d2, 80), (''GSM900'', 3, f3, d3, 90)]
        2 t =
        Inr [(''GSM900'', 2, f2, d2, 80), (''GSM900'', 1, f1, d1, 50)])"
proof (intro conjI impI)
  show "getBest fp cs (int n) t = Inr (getBest_ref fp cs n t)"
    by (simp add: getBest_def getBest_ref_def while_loop_eq slice_to_def)
next
  assume "accurate fp (1 / 1000) \<and> \<bar>d1 - 1 / 10\<bar> \<le> 1 / 1000 \<and> \<bar>d2 - 5 / 10\<bar> \<le> 1 / 1000 \<and>
    \<bar>d3 - 5\<bar> \<le> 1 / 1000 \<and> \<bar>t - 6 / 10\<bar> \<le> 1 / 1000"
  then have h: "accurate fp (1 / 1000)" "\<bar>d1 - 1 / 10\<bar> \<le> 1 / 1000" "\<bar>d2 - 5 / 10\<bar> \<le> 1 / 1000"
    "\<bar>d3 - 5\<bar> \<le> 1 / 1000" "\<bar>t - 6 / 10\<bar> \<le> 1 / 1000"
    by blast+
  from h show "while_body fp t
        [(''GSM900'', 1, f1, d1, 50), (''GSM900'', 2, f2, d2, 80), (''GSM900'', 3, f3, d3, 90)] =
        Next [(''GSM900'', 1, f1, d1, 50), (''GSM900'', 2, f2, d2, 80)]"
    by (rule scenario_first_round) simp_all
  from h show "getBest fp
        [(''GSM900'', 1, f1, d1, 50), (''GSM900'', 2, f2, d2, 80), (''GSM900'', 3, f3, d3, 90)]
        2 t =
        Inr [(''GSM900'', 2, f2, d2, 80), (''GSM900'', 1, f1, d1, 50)]"
    by (rule scenario_result) simp_all
qed

theorem getBest_refines_reference_witness:
  "accurate exact_arith (1 / 1000) \<and>
   getBest exact_arith
     [(''GSM900'', 1, 900, 1 / 10, 50), (''GSM900'', 2, 9002 / 10, 5 / 10, 80),
      (''GSM900'', 3, 9004 / 10, 5, 90)] 2 (6 / 10) =
     Inr [(''GSM900'', 2, 9002 / 10, 5 / 10, 80), (''GSM900'', 1, 900, 1 / 10, 50)] \<and>
   getBest_ref exact_arith
     [(''GSM900'', 1, 900, 1 / 10, 50), (''GSM900'', 2, 9002 / 10, 5 / 10, 80),
      (''GSM900'', 3, 9004 / 10, 5, 90)] 2 (6 / 10) =
     [(''GSM900'', 2, 9002 / 10, 5 / 10, 80), (''GSM900'', 1, 900, 1 / 10, 50)]"
proof -
  let ?cs = "[(''GSM900'', 1, 900, 1 / 10, 50), (''GSM900'', 2, 9002 / 10, 5 / 10, 80),
      (''GSM900'', 3, 9004 / 10, 5, 90)] :: channel list"
  have acc: "accurate exact_arith (1 / 1000)" by (rule accurate_exact) simp
  have near: "\<bar>1 / 10 - 1 / 10\<bar> \<le> (1 / 1000 :: real)" "\<bar>5 / 10 - 5 / 10\<bar> \<le> (1 / 1000 :: real)"
    "\<bar>5 - 5\<bar> \<le> (1 / 1000 :: real)" "\<bar>6 / 10 - 6 / 10\<bar> \<le> (1 / 1000 :: real)"
    by simp_all
  have a: "getBest exact_arith ?cs (int 2) (6 / 10) = Inr (getBest_ref exact_arith ?cs 2 (6 / 10))"
    and b: "getBest exact_arith ?cs 2 (6 / 10) =
      Inr [(''GSM900'', 2, 9002 / 10, 5 / 10, 80), (''GSM900'', 1, 900, 1 / 10, 50)]"
    using getBest_refines_reference
      [of exact_arith ?cs 2 "6 / 10" "1 / 10" "5 / 10" 5 900 "9002 / 10" "9004 / 10"] acc near
    by blast+
  have "int 2 = 2" by simp
  with a b have "Inr (getBest_ref exact_arith ?cs 2 (6 / 10)) =
      (Inr [(''GSM900'', 2, 9002 / 10, 5 / 10, 80), (''GSM900'', 1, 900, 1 / 10, 50)]
        :: error + channel list)"
    by metis
  then have "getBest_ref exact_arith ?cs 2 (6 / 10) =
      [(''GSM900'', 2, 9002 / 10, 5 / 10, 80), (''GSM900'', 1, 900, 1 / 10, 50)]"
    by (simp only: sum.inject)
  with acc b show ?thesis by blast
qed

text \<open>
  C4. A run of the loop body that does not end the loop leaves the candidate list with
  exactly one element removed; the loop ends after its body has run at most as many times
  as there were candidates; \<^verbatim>\<open>getBest\<close> never raises, returns at most
  \<open>nchannels\<close> records (for a count that is not negative) and never more than it was
  given, and returns the empty list when no candidate is left.
\<close>

theorem getBest_shrinks_and_terminates:
  "(\<forall>cs'. while_body fp t cs = Next cs' \<longrightarrow>
           Suc (length cs') = length cs \<and> (\<exists>j<length cs. cs' = remove_at j cs)) \<and>
   (\<exists>r. while_fuel fp t (length cs) cs = Some (Inr r) \<and> while_loop fp t cs = Inr r) \<and>
   (\<exists>r. getBest fp cs n t = Inr r \<and> length r \<le> length cs \<and> (0 \<le> n \<longrightarrow> length r \<le> nat n)) \<and>
   getBest fp [] n t = Inr [] \<and>
   (while_loop fp t cs = Inr [] \<longrightarrow> getBest fp cs n t = Inr [])"
proof (intro conjI allI impI)
  fix cs' assume "while_body fp t cs = Next cs'"
  then show "Suc (length cs') = length cs" by (rule while_body_length)
next
  fix cs' assume "while_body fp t cs = Next cs'"
  then show "\<exists>j<length cs. cs' = remove_at j cs" by (rule while_body_remove)
next
  show "\<exists>r. while_fuel fp t (length cs) cs = Some (Inr r) \<and> while_loop fp t cs = Inr r"
    by (simp add: while_fuel_enough while_loop_eq)
next
  obtain r where r: "getBest fp cs n t = Inr r" "mset r \<subseteq># mset cs"
    using getBest_total by blast
  from r(2) have "length r \<le> length cs"
    by (metis size_mset size_mset_mono)
  moreover have "0 \<le> n \<longrightarrow> length r \<le> nat n"
    using r(1) by (auto simp: getBest_def while_loop_eq slice_to_def)
  ultimately show "\<exists>r. getBest fp cs n t = Inr r \<and> length r \<le> length cs \<and>
      (0 \<le> n \<longrightarrow> length r \<le> nat n)"
    using r(1) by blast
next
  show "getBest fp [] n t = Inr []"
    by (simp add: getBest_def while_loop.simps slice_to_def)
next
  assume "while_loop fp t cs = Inr []"
  then show "getBest fp cs n t = Inr []"
    by (simp add: getBest_def slice_to_def)
qed

theorem getBest_shrinks_and_terminates_witness:
  "while_body exact_arith 0
     [(''GSM900'', 1, 900, 1 / 10, 50), (''GSM900'', 2, 9002 / 10, 5 / 10, 80),
      (''GSM900'', 3, 9004 / 10, 5, 90)] =
     Next [(''GSM900'', 1, 900, 1 / 10, 50), (''GSM900'', 2, 9002 / 10, 5 / 10, 80)] \<and>
   while_loop exact_arith 0
     [(''GSM900'', 1, 900, 1 / 10, 50), (''GSM900'', 2, 9002 / 10, 5 / 10, 80),
      (''GSM900'', 3, 9004 / 10, 5, 90)] = Inr [] \<and>
   getBest exact_arith
     [(''GSM900'', 1, 900, 1 / 10, 50), (''GSM900'', 2, 9002 / 10, 5 / 10, 80),
      (''GSM900'', 3, 9004 / 10, 5, 90)] 2 0 = Inr []"
proof -
  let ?cs = "[(''GSM900'', 1, 900, 1 / 10, 50), (''GSM900'', 2, 9002 / 10, 5 / 10, 80),
      (''GSM900'', 3, 9004 / 10, 5, 90)] :: channel list"
  have b: "while_body exact_arith 0 ?cs =
     Next [(''GSM900'', 1, 900, 1 / 10, 50), (''GSM900'', 2, 9002 / 10, 5 / 10, 80)]"
    by code_simp
  have l: "while_loop exact_arith 0 ?cs = Inr []"
    by (simp add: while_loop_nonpos)
  from l getBest_shrinks_and_terminates [of exact_arith 0 ?cs 2]
  have "getBest exact_arith ?cs 2 0 = Inr []" by blast
  with b l show ?thesis by blast
qed

text \<open>
  C5. \<^verbatim>\<open>getBest\<close> reads its list, its two arguments and nothing else, so that two
  calls on lists of the same content return lists of the same content, wherever the
  lists are stored. For a positive threshold, the only kind the program passes, and a
  list that is not empty, the value that the loop body tests against the threshold is
  the largest distance from the mean, and the candidate it removes is the first in the
  order of the list at that distance, every candidate before it being strictly nearer the
  mean. For every threshold, the candidates that remain when the loop ends are those
  that remain when the first candidate at the largest distance is removed each time;
  for a threshold that is not positive there is none.
\<close>

theorem getBest_removes_first_tied:
  "(0 < t \<and> cs \<noteq> [] \<longrightarrow>
      while_body fp t cs =
        (if largest_distance fp cs < t then Break
         else Next (remove_at (worst_offender fp cs) cs)) \<and>
      worst_offender fp cs < length cs \<and>
      distance fp cs (cs ! worst_offender fp cs) = largest_distance fp cs \<and>
      (\<forall>j<worst_offender fp cs. distance fp cs (cs ! j) < largest_distance fp cs)) \<and>
   while_loop fp t cs = Inr (consistent_set fp t cs) \<and>
   (t \<le> 0 \<longrightarrow> while_loop fp t cs = Inr []) \<and>
   (\<forall>h h' self self'. cells h self = cs \<and> cells h' self' = cs \<longrightarrow>
      (\<exists>r k r' k'. getBest_heap fp h self n t = Inr (r, k) \<and>
                   getBest_heap fp h' self' n t = Inr (r', k') \<and>
                   cells k r = cells k' r' \<and> getBest fp cs n t = Inr (cells k r)))"
proof (intro conjI impI allI)
  assume "0 < t \<and> cs \<noteq> []"
  then have t: "0 < t" and ne: "cs \<noteq> []" by simp_all
  show "while_body fp t cs =
        (if largest_distance fp cs < t then Break
         else Next (remove_at (worst_offender fp cs) cs))"
    using ne t by (rule while_body_pos)
  show "worst_offender fp cs < length cs" using ne by (rule worst_offender_less)
  show "distance fp cs (cs ! worst_offender fp cs) = largest_distance fp cs"
    using ne by (rule worst_offender_first(1))
  fix j assume "j < worst_offender fp cs"
  then show "distance fp cs (cs ! j) < largest_distance fp cs"
    using worst_offender_first(2) [OF ne] by blast
next
  show "while_loop fp t cs = Inr (consistent_set fp t cs)" by (rule while_loop_eq)
next
  assume "t \<le> 0"
  then show "while_loop fp t cs = Inr []" by (rule while_loop_nonpos)
next
  fix h h' :: heap and self self' :: addr
  assume "cells h self = cs \<and> cells h' self' = cs"
  then have c: "cells h self = cs" "cells h' self' = cs" by simp_all
  let ?s = "sort_key (\<lambda>c. - power_of c) (consistent_set fp t cs)"
  have v: "getBest fp cs n t = Inr (slice_to ?s n)"
    by (simp add: getBest_def while_loop_eq)
  have "\<exists>k. getBest_heap fp h self n t = Inr (Suc (used h), k) \<and>
             cells k (Suc (used h)) = slice_to ?s n"
    by (simp add: getBest_heap_eq Let_def c)
  moreover have "\<exists>k'. getBest_heap fp h' self' n t = Inr (Suc (used h'), k') \<and>
             cells k' (Suc (used h')) = slice_to ?s n"
    by (simp add: getBest_heap_eq Let_def c)
  ultimately show "\<exists>r k r' k'. getBest_heap fp h self n t = Inr (r, k) \<and>
                   getBest_heap fp h' self' n t = Inr (r', k') \<and>
                   cells k r = cells k' r' \<and> getBest fp cs n t = Inr (cells k r)"
    using v by metis
qed

theorem getBest_removes_first_tied_witness:
  "largest_distance exact_arith
     [(''GSM900'', 1, 900, 0, 50), (''GSM900'', 2, 9002 / 10, 1, 80),
      (''GSM900'', 3, 9004 / 10, 2, 90)] = 1 \<and>
   distance exact_arith
     [(''GSM900'', 1, 900, 0, 50), (''GSM900'', 2, 9002 / 10, 1, 80),
      (''GSM900'', 3, 9004 / 10, 2, 90)] (''GSM900'', 3, 9004 / 10, 2, 90) = 1 \<and>
   worst_offender exact_arith
     [(''GSM900'', 1, 900, 0, 50), (''GSM900'', 2, 9002 / 10, 1, 80),
      (''GSM900'', 3, 9004 / 10, 2, 90)] = 0 \<and>
   while_body exact_arith (6 / 10)
     [(''GSM900'', 1, 900, 0, 50), (''GSM900'', 2, 9002 / 10, 1, 80),
      (''GSM900'', 3, 9004 / 10, 2, 90)] =
     Next [(''GSM900'', 2, 9002 / 10, 1, 80), (''GSM900'', 3, 9004 / 10, 2, 90)]"
proof -
  let ?cs = "[(''GSM900'', 1, 900, 0, 50), (''GSM900'', 2, 9002 / 10, 1, 80),
      (''GSM900'', 3, 9004 / 10, 2, 90)] :: channel list"
  have l: "largest_distance exact_arith ?cs = 1" by code_simp
  have d: "distance exact_arith ?cs (''GSM900'', 3, 9004 / 10, 2, 90) = 1" by code_simp
  have w: "worst_offender exact_arith ?cs = 0" by code_simp
  have r: "remove_at 0 ?cs =
      [(''GSM900'', 2, 9002 / 10, 1, 80), (''GSM900'', 3, 9004 / 10, 2, 90)]"
    by (simp add: remove_at_def)
  have "(0 :: real) < 6 / 10 \<and> ?cs \<noteq> []" by simp
  with getBest_removes_first_tied [of "6 / 10" ?cs exact_arith]
  have "while_body exact_arith (6 / 10) ?cs =
        (if largest_distance exact_arith ?cs < 6 / 10 then Break
         else Next (remove_at (worst_offender exact_arith ?cs) ?cs))"
    by blast
  then have "while_body exact_arith (6 / 10) ?cs =
      Next [(''GSM900'', 2, 9002 / 10, 1, 80), (''GSM900'', 3, 9004 / 10, 2, 90)]"
    unfolding l w r by simp
  with l d w show ?thesis by blast
qed

text \<open>
  C9. \<^verbatim>\<open>getBest\<close> leaves every list object that existed before the call as it
  was, the list it is called on among them; what it returns is a new list object, whose
  content is the value of \<^verbatim>\<open>getBest\<close> computed above and is made of records of
  the original list.
\<close>

theorem getBest_frame:
  assumes "self < used h"
  shows "\<exists>res h'. getBest_heap fp h self n t = Inr (res, h') \<and>
           cells h' self = cells h self \<and>
           (\<forall>a<used h. cells h' a = cells h a) \<and>
           used h \<le> res \<and>
           getBest fp (cells h self) n t = Inr (cells h' res) \<and>
           mset (cells h' res) \<subseteq># mset (cells h self)"
proof -
  define a where "a = used h"
  define s where "s = sort_key (\<lambda>c. - power_of c) (consistent_set fp t (cells h self))"
  define h' where "h' =
    (store (h\<lparr>cells := (cells h)(a := cells h self), used := Suc a\<rparr>) a s)
      \<lparr>cells := (cells (store (h\<lparr>cells := (cells h)(a := cells h self), used := Suc a\<rparr>) a s))
                 (Suc a := slice_to s n), used := Suc (Suc a)\<rparr>"
  have run: "getBest_heap fp h self n t = Inr (Suc a, h')"
    by (simp add: getBest_heap_eq Let_def a_def s_def h'_def)
  have old: "\<forall>b<used h. cells h' b = cells h b"
    by (simp add: h'_def store_def a_def)
  have res: "cells h' (Suc a) = slice_to s n"
    by (simp add: h'_def)
  have val: "getBest fp (cells h self) n t = Inr (slice_to s n)"
    by (simp add: getBest_def while_loop_eq s_def)
  obtain r where r: "getBest fp (cells h self) n t = Inr r" "mset r \<subseteq># mset (cells h self)"
    using getBest_total by blast
  with val have sub: "mset (slice_to s n) \<subseteq># mset (cells h self)" by simp
  show ?thesis
    using run old res val sub assms by (auto simp: a_def)
qed

theorem getBest_frame_witness:
  "\<exists>res h'. getBest_heap exact_arith
       \<lparr>cells = (\<lambda>a. [])(0 := [(''GSM900'', 1, 900, 1 / 10, 50), (''GSM900'', 2, 9002 / 10, 5 / 10, 80)]),
        used = 1\<rparr> 0 1 (6 / 10) = Inr (res, h') \<and>
     cells h' 0 = [(''GSM900'', 1, 900, 1 / 10, 50), (''GSM900'', 2, 9002 / 10, 5 / 10, 80)] \<and>
     1 \<le> res"
proof -
  let ?h = "\<lparr>cells = (\<lambda>a. [])(0 := [(''GSM900'', 1, 900, 1 / 10, 50), (''GSM900'', 2, 9002 / 10, 5 / 10, 80)]),
        used = 1\<rparr> :: heap"
  have "0 < used ?h" by simp
  from getBest_frame [OF this, of exact_arith 1 "6 / 10"] show ?thesis
    by (auto simp del: fun_upd_apply) (auto simp: fun_upd_apply)
qed

section \<open>Properties of the aggregation\<close>

lemma measure_loop_ok:
  assumes "length ps = length chs"
    and "\<forall>i<length chs. measurePPM fp run (k + i) (band_of (chs ! i)) (channel_of (chs ! i)) = Inr (ps ! i)"
  shows "measure_loop fp run k chs (ppms, ppm, pwr) =
           Inr (ppms @ ps, ppm + sum_list (map (\<lambda>(p, ch). p * power_of ch) (zip ps chs)),
                pwr + sum_list (map power_of chs))"
  using assms
proof (induction chs arbitrary: k ps ppms ppm pwr)
  case Nil
  then show ?case by simp
next
  case (Cons ch chs)
  then obtain p ps' where ps: "ps = p # ps'" by (cases ps) auto
  have "0 < length (ch # chs)" by simp
  from Cons.prems(2) [rule_format, OF this]
  have hd: "measurePPM fp run k (band_of ch) (channel_of ch) = Inr p"
    using ps by simp
  have len: "length ps' = length chs" using Cons.prems(1) ps by simp
  have tl: "\<forall>i<length chs. measurePPM fp run (Suc k + i) (band_of (chs ! i)) (channel_of (chs ! i)) = Inr (ps' ! i)"
  proof (intro allI impI)
    fix i assume "i < length chs"
    then have "Suc i < length (ch # chs)" by simp
    from Cons.prems(2) [rule_format, OF this] show
      "measurePPM fp run (Suc k + i) (band_of (chs ! i)) (channel_of (chs ! i)) = Inr (ps' ! i)"
      using ps by simp
  qed
  have "measure_loop fp run k (ch # chs) (ppms, ppm, pwr) =
        measure_loop fp run (Suc k) chs (ppms @ [p], ppm + p * power_of ch, pwr + power_of ch)"
    using hd by simp
  also have "\<dots> = Inr ((ppms @ [p]) @ ps',
       (ppm + p * power_of ch) + sum_list (map (\<lambda>(p, ch). p * power_of ch) (zip ps' chs)),
       (pwr + power_of ch) + sum_list (map power_of chs))"
    by (rule Cons.IH [OF len tl])
  also have "\<dots> = Inr (ppms @ ps,
       ppm + sum_list (map (\<lambda>(p, ch). p * power_of ch) (zip ps (ch # chs))),
       pwr + sum_list (map power_of (ch # chs)))"
    using ps by simp
  finally show ?case .
qed

lemma measure_loop_pwr:
  "measure_loop fp run k chs (ppms, ppm, pwr) = Inr (ppms', ppm', pwr') \<Longrightarrow>
   pwr' = pwr + sum_list (map power_of chs)"
proof (induction chs arbitrary: k ppms ppm pwr)
  case Nil
  then show ?case by simp
next
  case (Cons ch chs)
  from Cons.prems obtain p where
    "measure_loop fp run (Suc k) chs (ppms @ [p], ppm + p * power_of ch, pwr + power_of ch) =
       Inr (ppms', ppm', pwr')"
    by (auto simp: bind_eq_Inr)
  from Cons.IH [OF this] show ?case by simp
qed

lemma foldl_max_fold: "foldl max x ys = fold max ys (x :: real)"
  by (induction ys arbitrary: x) (simp_all add: max.commute)

lemma py_max_Max: "xs \<noteq> [] \<Longrightarrow> py_max xs = Inr (Max (set xs))"
proof (cases xs)
  case Nil
  assume "xs \<noteq> []"
  with Nil show ?thesis by simp
next
  case (Cons x ys)
  have "Max (set xs) = fold max ys x"
    unfolding Cons by (rule Max.set_eq_fold)
  then show ?thesis
    by (simp add: Cons py_max_def foldl_max_fold)
qed

lemma measureMeanPPM_ok:
  assumes ne: "channels \<noteq> []"
    and len: "length ppms = length channels"
    and meas: "\<forall>i<length channels.
        measurePPM fp run i (band_of (channels ! i)) (channel_of (channels ! i)) = Inr (ppms ! i)"
    and pwr: "sum_list (map power_of channels) \<noteq> 0"
  shows "measureMeanPPM fp run channels =
           Inr (weighted_mean ppms channels, max_abs_dev ppms (weighted_mean ppms channels))"
proof -
  have m: "\<forall>i<length channels.
        measurePPM fp run (0 + i) (band_of (channels ! i)) (channel_of (channels ! i)) = Inr (ppms ! i)"
    using meas by simp
  have "measure_loop fp run 0 channels ([], 0, 0) =
      Inr ([] @ ppms, 0 + sum_list (map (\<lambda>(p, ch). p * power_of ch) (zip ppms channels)),
           0 + sum_list (map power_of channels))"
    by (rule measure_loop_ok [OF len m])
  then have loop: "measure_loop fp run 0 channels ([], 0, 0) =
      Inr (ppms, sum_list (map (\<lambda>(p, ch). p * power_of ch) (zip ppms channels)),
           sum_list (map power_of channels))"
    by simp
  have pne: "map (\<lambda>p. \<bar>p - weighted_mean ppms channels\<bar>) ppms \<noteq> []"
    using ne len by auto
  have mx: "py_max (map (\<lambda>p. \<bar>p - weighted_mean ppms channels\<bar>) ppms) =
              Inr (max_abs_dev ppms (weighted_mean ppms channels))"
    using py_max_Max [OF pne] by (simp add: max_abs_dev_def)
  have "measureMeanPPM fp run channels =
          bind (py_max (map (\<lambda>p. \<bar>p - weighted_mean ppms channels\<bar>) ppms))
               (\<lambda>ppm_err. Inr (weighted_mean ppms channels, ppm_err))"
    unfolding measureMeanPPM_def loop using pwr by (simp add: weighted_mean_def Let_def)
  then show ?thesis unfolding mx by simp
qed

lemma max_abs_dev_nonneg: "ppms \<noteq> [] \<Longrightarrow> 0 \<le> max_abs_dev ppms m"
proof -
  assume "ppms \<noteq> []"
  then obtain p where "p \<in> set ppms" by (cases ppms) auto
  then have "\<bar>p - m\<bar> \<le> max_abs_dev ppms m"
    unfolding max_abs_dev_def by (intro Max_ge) auto
  then show ?thesis by linarith
qed

lemma zero_power_raises:
  assumes "sum_list (map power_of channels) = 0"
  shows "\<exists>e. measureMeanPPM fp run channels = Inl e"
proof (cases "measure_loop fp run 0 channels ([], 0, 0)")
  case (Inl e)
  then show ?thesis by (simp add: measureMeanPPM_def)
next
  case (Inr acc)
  obtain ppms ppm pwr where acc: "acc = (ppms, ppm, pwr)" by (cases acc) auto
  have "pwr = 0"
    using measure_loop_pwr [of fp run 0 channels "[]" 0 0 ppms ppm pwr] Inr acc assms by simp
  then show ?thesis using Inr acc by (simp add: measureMeanPPM_def)
qed

lemma zero_power_raises_division:
  assumes z: "sum_list (map power_of channels) = 0"
    and meas: "\<forall>i<length channels.
        \<exists>p. measurePPM fp run i (band_of (channels ! i)) (channel_of (channels ! i)) = Inr p"
  shows "measureMeanPPM fp run channels = Inl ZeroDivisionError"
proof -
  define ps where "ps = map (\<lambda>i. projr (measurePPM fp run i (band_of (channels ! i)) (channel_of (channels ! i)))) [0..<length channels]"
  have len: "length ps = length channels" by (simp add: ps_def)
  have m: "\<forall>i<length channels.
        measurePPM fp run (0 + i) (band_of (channels ! i)) (channel_of (channels ! i)) = Inr (ps ! i)"
  proof (intro allI impI)
    fix i assume i: "i < length channels"
    with meas obtain p where
      "measurePPM fp run i (band_of (channels ! i)) (channel_of (channels ! i)) = Inr p" by blast
    then show "measurePPM fp run (0 + i) (band_of (channels ! i)) (channel_of (channels ! i)) = Inr (ps ! i)"
      using i by (simp add: ps_def)
  qed
  have "measure_loop fp run 0 channels ([], 0, 0) =
      Inr ([] @ ps, 0 + sum_list (map (\<lambda>(p, ch). p * power_of ch) (zip ps channels)),
           0 + sum_list (map power_of channels))"
    by (rule measure_loop_ok [OF len m])
  then show ?thesis
    using z by (simp add: measureMeanPPM_def)
qed

subsection \<open>Results on the aggregation\<close>

text \<open>
  C2, as stated, at a single channel of power 0 whose measurement succeeds: the division
  by the total power raises, so no mean and no error bound are returned.
\<close>

theorem measureMeanPPM_zero_power_counterexample:
  "measurePPM exact_arith (replay [''average absolute error: 1.0 ppm'']) 0 ''GSM900'' 1 = Inr 1 \<and>
   measureMeanPPM exact_arith (replay [''average absolute error: 1.0 ppm''])
     [(''GSM900'', 1, 900, 1 / 10, 0)] = Inl ZeroDivisionError"
  by (intro conjI; code_simp)

text \<open>
  C2, amended. For every non-empty sequence of channels whose measurements all succeed
  and whose total power is not zero, the aggregator returns the power-weighted mean of
  the measured values and, as the error, the largest absolute difference between a
  measured value and that mean, which is never negative.
\<close>

theorem measureMeanPPM_weighted_mean:
  assumes "channels \<noteq> []"
    and "length ppms = length channels"
    and "\<forall>i<length channels.
        measurePPM fp run i (band_of (channels ! i)) (channel_of (channels ! i)) = Inr (ppms ! i)"
    and "sum_list (map power_of channels) \<noteq> 0"
  shows "measureMeanPPM fp run channels =
           Inr (weighted_mean ppms channels, max_abs_dev ppms (weighted_mean ppms channels)) \<and>
         0 \<le> max_abs_dev ppms (weighted_mean ppms channels)"
proof
  show "measureMeanPPM fp run channels =
           Inr (weighted_mean ppms channels, max_abs_dev ppms (weighted_mean ppms channels))"
    using assms by (rule measureMeanPPM_ok)
next
  have "ppms \<noteq> []" using assms(1,2) by auto
  then show "0 \<le> max_abs_dev ppms (weighted_mean ppms channels)"
    by (rule max_abs_dev_nonneg)
qed

text \<open>The scenario: measured values 1.0 and 2.0 with powers 10 and 30 give 1.75 and 0.75.\<close>

theorem measureMeanPPM_weighted_mean_witness:
  "measureMeanPPM exact_arith
     (replay [''average absolute error: 1.0 ppm'', ''average absolute error: 2.0 ppm''])
     [(''GSM900'', 1, 900, 1 / 10, 10), (''GSM900'', 2, 9002 / 10, 5 / 10, 30)] =
     Inr (7 / 4, 3 / 4)"
proof -
  let ?run = "replay [''average absolute error: 1.0 ppm'', ''average absolute error: 2.0 ppm'']"
  let ?chs = "[(''GSM900'', 1, 900, 1 / 10, 10), (''GSM900'', 2, 9002 / 10, 5 / 10, 30)]
                :: channel list"
  let ?ppms = "[1, 2] :: real list"
  have m0: "measurePPM exact_arith ?run 0 ''GSM900'' 1 = Inr 1" by code_simp
  have m1: "measurePPM exact_arith ?run 1 ''GSM900'' 2 = Inr 2" by code_simp
  have meas: "\<forall>i<length ?chs.
      measurePPM exact_arith ?run i (band_of (?chs ! i)) (channel_of (?chs ! i)) = Inr (?ppms ! i)"
    using m0 m1 by (simp add: less_Suc_eq numeral_2_eq_2)
  have ne: "?chs \<noteq> []" by simp
  have len: "length ?ppms = length ?chs" by simp
  have nz: "sum_list (map power_of ?chs) \<noteq> 0" by simp
  have wm: "weighted_mean ?ppms ?chs = 7 / 4" by (simp add: weighted_mean_def)
  have md: "max_abs_dev ?ppms (7 / 4) = 3 / 4" by (simp add: max_abs_dev_def)
  from measureMeanPPM_weighted_mean [OF ne len meas nz] show ?thesis
    by (simp only: wm md)
qed

text \<open>
  C3. When the total power of the input is zero, the empty input included, the aggregator
  returns no numeric result: it raises. When every measurement succeeds, the exception is
  the \<^verbatim>\<open>ZeroDivisionError\<close> of the division by the total power; otherwise it is
  the exception of the first measurement that failed.
\<close>

theorem measureMeanPPM_zero_total_power:
  assumes "sum_list (map power_of channels) = 0"
  shows "(\<exists>e. measureMeanPPM fp run channels = Inl e) \<and>
         ((\<forall>i<length channels.
             \<exists>p. measurePPM fp run i (band_of (channels ! i)) (channel_of (channels ! i)) = Inr p) \<longrightarrow>
          measureMeanPPM fp run channels = Inl ZeroDivisionError) \<and>
         measureMeanPPM fp run [] = Inl ZeroDivisionError"
proof (intro conjI impI)
  show "\<exists>e. measureMeanPPM fp run channels = Inl e"
    using assms by (rule zero_power_raises)
next
  assume "\<forall>i<length channels.
     \<exists>p. measurePPM fp run i (band_of (channels ! i)) (channel_of (channels ! i)) = Inr p"
  with assms show "measureMeanPPM fp run channels = Inl ZeroDivisionError"
    by (rule zero_power_raises_division)
next
  show "measureMeanPPM fp run [] = Inl ZeroDivisionError"
    by (simp add: measureMeanPPM_def)
qed

theorem measureMeanPPM_zero_total_power_witness:
  "measureMeanPPM exact_arith
     (replay [''average absolute error: 1.0 ppm'', ''average absolute error: 2.0 ppm''])
     [(''GSM900'', 1, 900, 1 / 10, 0), (''GSM900'', 2, 9002 / 10, 5 / 10, 0)] =
     Inl ZeroDivisionError"
proof -
  let ?run = "replay [''average absolute error: 1.0 ppm'', ''average absolute error: 2.0 ppm'']"
  let ?chs = "[(''GSM900'', 1, 900, 1 / 10, 0), (''GSM900'', 2, 9002 / 10, 5 / 10, 0)]
                :: channel list"
  have m0: "measurePPM exact_arith ?run 0 ''GSM900'' 1 = Inr 1" by code_simp
  have m1: "measurePPM exact_arith ?run 1 ''GSM900'' 2 = Inr 2" by code_simp
  have meas: "\<forall>i<length ?chs.
      \<exists>p. measurePPM exact_arith ?run i (band_of (?chs ! i)) (channel_of (?chs ! i)) = Inr p"
    using m0 m1 by (simp add: less_Suc_eq numeral_2_eq_2)
  have z: "sum_list (map power_of ?chs) = 0" by simp
  from measureMeanPPM_zero_total_power [OF z, of exact_arith ?run] meas show ?thesis
    by blast
qed

section \<open>Properties of the string operations and of the parsers\<close>

subsection \<open>Splitting at a character\<close>

lemma split_from_none: "c \<notin> set s \<Longrightarrow> split_from [c] cur s = [cur @ s]"
  by (induction s arbitrary: cur) auto

lemma split_from_first:
  "c \<notin> set a \<Longrightarrow> split_from [c] cur (a @ c # b) = (cur @ a) # split_from [c] [] b"
  by (induction a arbitrary: cur) auto

lemma split_none: "c \<notin> set s \<Longrightarrow> split [c] s = [s]"
  by (simp add: split_def split_from_none)

lemma split_first: "c \<notin> set a \<Longrightarrow> split [c] (a @ c # b) = a # split [c] b"
  by (simp add: split_def split_from_first)

subsection \<open>Stripping\<close>

lemma lstrip_keep: "s = [] \<or> \<not> isspace (hd s) \<Longrightarrow> lstrip s = s"
  by (cases s) (auto simp: lstrip_def)

lemma rstrip_keep: "s = [] \<or> \<not> isspace (last s) \<Longrightarrow> rstrip s = s"
proof (cases "s = []")
  case True
  then show ?thesis by (simp add: rstrip_def)
next
  case False
  assume "s = [] \<or> \<not> isspace (last s)"
  with False have "\<not> isspace (hd (rev s))" by (simp add: hd_rev)
  then have "dropWhile isspace (rev s) = rev s"
    using False by (cases "rev s") auto
  then show ?thesis by (simp add: rstrip_def)
qed

lemma strip_keep:
  "s = [] \<or> (\<not> isspace (hd s) \<and> \<not> isspace (last s)) \<Longrightarrow> strip s = s"
  by (auto simp: strip_def lstrip_keep rstrip_keep)

lemma lstrip_spaces: "list_all isspace w \<Longrightarrow> lstrip (w @ s) = lstrip s"
  by (induction w) (auto simp: lstrip_def)

lemma rstrip_spaces: "list_all isspace w \<Longrightarrow> rstrip (s @ w) = rstrip s"
proof -
  assume "list_all isspace w"
  then have "list_all isspace (rev w)" by (simp add: list_all_iff)
  then have "dropWhile isspace (rev w @ rev s) = dropWhile isspace (rev s)"
    by (induction "rev w" arbitrary: w) (auto simp: list_all_iff dropWhile_append)
  then show ?thesis by (simp add: rstrip_def)
qed

lemma rstrip_append_keep:
  "t \<noteq> [] \<Longrightarrow> \<not> isspace (last t) \<Longrightarrow> rstrip (s @ t) = s @ t"
  by (rule rstrip_keep) simp

lemma strip_pad:
  assumes "list_all isspace w1" "list_all isspace w2" "s \<noteq> []"
    "\<not> isspace (hd s)" "\<not> isspace (last s)"
  shows "strip (w1 @ s @ w2) = s"
proof -
  have "lstrip (w1 @ s @ w2) = lstrip (s @ w2)" using assms(1) by (rule lstrip_spaces)
  also have "\<dots> = s @ w2" using assms(3,4) by (intro lstrip_keep) simp
  finally have "strip (w1 @ s @ w2) = rstrip (s @ w2)" by (simp add: strip_def)
  also have "\<dots> = rstrip s" using assms(2) by (rule rstrip_spaces)
  also have "\<dots> = s" using assms(5) by (intro rstrip_keep) simp
  finally show ?thesis .
qed

lemma strip_empty_iff: "strip s = [] \<longleftrightarrow> list_all isspace s"
proof
  assume "strip s = []"
  then have "dropWhile isspace (rev (dropWhile isspace s)) = []"
    by (simp add: strip_def rstrip_def lstrip_def)
  then have "\<forall>c\<in>set (dropWhile isspace s). isspace c"
    by (simp add: dropWhile_eq_Nil_conv)
  then have "dropWhile isspace s = []"
    by (metis dropWhile_eq_Nil_conv hd_dropWhile hd_in_set)
  then show "list_all isspace s" by (simp add: dropWhile_eq_Nil_conv list_all_iff)
next
  assume a: "list_all isspace s"
  have d: "dropWhile isspace s = []" using a by (simp add: list_all_iff)
  show "strip s = []" unfolding strip_def rstrip_def lstrip_def d by simp
qed

lemma trim_pad:
  assumes "list_all P w1" "list_all P w2" "s \<noteq> []" "\<not> P (hd s)" "\<not> P (last s)"
  shows "rev (dropWhile P (rev (dropWhile P (w1 @ s @ w2)))) = s"
proof -
  have "\<forall>x\<in>set w1. P x" using assms(1) by (simp add: list_all_iff)
  then have "dropWhile P (w1 @ s @ w2) = dropWhile P (s @ w2)"
    by (simp add: dropWhile_append)
  also have "\<dots> = s @ w2"
    using assms(3,4) by (cases s) simp_all
  finally have a: "dropWhile P (w1 @ s @ w2) = s @ w2" .
  have "\<forall>x\<in>set (rev w2). P x" using assms(2) by (simp add: list_all_iff)
  then have "dropWhile P (rev w2 @ rev s) = dropWhile P (rev s)"
    by (simp add: dropWhile_append)
  also have "\<dots> = rev s"
    using assms(3,5) by (cases "rev s") (simp_all add: hd_rev [symmetric])
  finally show ?thesis by (simp add: a)
qed

lemma num_strip_pad:
  assumes "list_all num_space w1" "list_all num_space w2" "s \<noteq> []"
    "\<not> num_space (hd s)" "\<not> num_space (last s)"
  shows "num_strip (w1 @ s @ w2) = s"
  unfolding num_strip_def using assms by (rule trim_pad)

subsection \<open>Stripping given characters from the right\<close>

lemma rstrip_chars_keep: "s = [] \<or> last s \<notin> set cs \<Longrightarrow> rstrip_chars cs s = s"
proof (cases "s = []")
  case True
  then show ?thesis by (simp add: rstrip_chars_def)
next
  case False
  assume "s = [] \<or> last s \<notin> set cs"
  with False have "hd (rev s) \<notin> set cs" by (simp add: hd_rev)
  then have "dropWhile (\<lambda>c. c \<in> set cs) (rev s) = rev s"
    using False by (cases "rev s") auto
  then show ?thesis by (simp add: rstrip_chars_def)
qed

lemma rstrip_chars_drop: "set t \<subseteq> set cs \<Longrightarrow> rstrip_chars cs (s @ t) = rstrip_chars cs s"
proof -
  assume "set t \<subseteq> set cs"
  then have "\<forall>c\<in>set (rev t). c \<in> set cs" by auto
  then have "dropWhile (\<lambda>c. c \<in> set cs) (rev t @ rev s) = dropWhile (\<lambda>c. c \<in> set cs) (rev s)"
    by (simp add: dropWhile_append)
  then show ?thesis by (simp add: rstrip_chars_def)
qed

lemma takeWhile_upto: "c \<notin> set a \<Longrightarrow> takeWhile (\<lambda>x. x \<noteq> c) (a @ c # b) = a"
  by (induction a) auto

lemma dropWhile_upto: "c \<notin> set a \<Longrightarrow> dropWhile (\<lambda>x. x \<noteq> c) (a @ c # b) = c # b"
  by (induction a) auto

subsection \<open>Decimal digits\<close>

lemma isdigit_not_space: "isdigit c \<Longrightarrow> \<not> isspace c"
  by (auto simp: isdigit_def isspace_def)

lemma isdigit_not_num_space: "isdigit c \<Longrightarrow> \<not> num_space c"
  by (auto simp: isdigit_def num_space_def)

lemma all_digits_notin: "all_digits s \<Longrightarrow> \<not> isdigit c \<Longrightarrow> c \<notin> set s"
  by (auto simp: all_digits_def list_all_iff)

lemma all_digits_hd: "all_digits s \<Longrightarrow> isdigit (hd s)"
  by (cases s) (auto simp: all_digits_def)

lemma all_digits_last: "all_digits s \<Longrightarrow> isdigit (last s)"
  by (auto simp: all_digits_def list_all_iff)

lemma digitpart_digits: "list_all isdigit s \<Longrightarrow> s \<noteq> [] \<Longrightarrow> digitpart s"
proof (induction s rule: digitpart.induct)
  case 1
  then show ?case by simp
next
  case (2 c)
  then show ?case by simp
next
  case (3 c d s)
  then have "d \<noteq> CHR ''_''" by (auto simp: isdigit_def)
  with 3 show ?case by simp
qed

lemma all_digits_digitpart: "all_digits s \<Longrightarrow> digitpart s"
  by (simp add: all_digits_def digitpart_digits)

lemma all_digits_filter: "all_digits s \<Longrightarrow> filter isdigit s = s"
  by (simp add: all_digits_def list_all_iff)

lemma split_sign_digits: "all_digits s \<Longrightarrow> split_sign (s @ t) = (False, s @ t)"
proof -
  assume a: "all_digits s"
  then obtain c r where s: "s = c # r" by (cases s) (auto simp: all_digits_def)
  with a have "isdigit c" by (simp add: all_digits_def)
  then have "c \<noteq> CHR ''-''" "c \<noteq> CHR ''+''" by (auto simp: isdigit_def)
  then show ?thesis by (simp add: split_sign_def s)
qed

lemma py_int_digits:
  assumes "all_digits s" "list_all num_space w1" "list_all num_space w2"
  shows "py_int (w1 @ s @ w2) = Inr (int (digits_val s))"
proof -
  have ne: "s \<noteq> []" using assms(1) by (simp add: all_digits_def)
  have "num_strip (w1 @ s @ w2) = s"
    using assms ne
    by (intro num_strip_pad) (auto dest: all_digits_hd all_digits_last isdigit_not_num_space)
  moreover have "split_sign s = (False, s)"
    using split_sign_digits [OF assms(1), of "[]"] by simp
  ultimately show ?thesis
    using assms(1) by (simp add: py_int_def all_digits_digitpart)
qed

subsection \<open>Fixed-point literals\<close>

lemma mantissa_fixed:
  assumes "all_digits ip" "all_digits fr"
  shows "mantissa (fixed_lit ip fr) = Some (fixed_val ip fr)"
proof -
  have dot: "CHR ''.'' \<notin> set ip"
    using assms(1) by (rule all_digits_notin) (simp add: isdigit_def)
  have tw: "takeWhile (\<lambda>c. c \<noteq> CHR ''.'') (ip @ CHR ''.'' # fr) = ip"
    using dot by (rule takeWhile_upto)
  have dw: "dropWhile (\<lambda>c. c \<noteq> CHR ''.'') (ip @ CHR ''.'' # fr) = CHR ''.'' # fr"
    using dot by (rule dropWhile_upto)
  have ne: "ip \<noteq> []" "fr \<noteq> []" using assms by (simp_all add: all_digits_def)
  show ?thesis
    using assms ne
    by (simp add: mantissa_def fixed_lit_def tw dw Let_def all_digits_digitpart
        all_digits_filter fixed_val_def)
qed

lemma float_body_fixed:
  assumes "all_digits ip" "all_digits fr"
  shows "float_body (fixed_lit ip fr) = Some (fixed_val ip fr)"
proof -
  have "\<forall>c\<in>set (fixed_lit ip fr). \<not> exp_char c"
    using assms by (auto simp: fixed_lit_def all_digits_def list_all_iff isdigit_def exp_char_def)
  then have tw: "takeWhile (\<lambda>c. \<not> exp_char c) (fixed_lit ip fr) = fixed_lit ip fr"
    and dw: "dropWhile (\<lambda>c. \<not> exp_char c) (fixed_lit ip fr) = []"
    by (simp_all add: takeWhile_eq_all_conv)
  show ?thesis
    by (simp add: float_body_def tw dw mantissa_fixed [OF assms])
qed

lemma lower_dot: "lower (CHR ''.'') = CHR ''.''"
  by (simp add: lower_def)

lemma fixed_not_special:
  "map lower (fixed_lit ip fr) \<notin> {''inf'', ''infinity'', ''nan''}"
proof -
  have "CHR ''.'' \<in> set (map lower (fixed_lit ip fr))"
    by (simp add: fixed_lit_def lower_dot)
  moreover have "CHR ''.'' \<notin> set ''inf''" "CHR ''.'' \<notin> set ''infinity''" "CHR ''.'' \<notin> set ''nan''"
    by simp_all
  ultimately show ?thesis by (metis insertE singletonD)
qed

lemma py_float_fixed:
  assumes "all_digits ip" "all_digits fr" "list_all num_space w1" "list_all num_space w2"
  shows "py_float fp (w1 @ fixed_lit ip fr @ w2) = from_decimal fp False (fixed_val ip fr)"
    and "py_float fp (w1 @ ''-'' @ fixed_lit ip fr @ w2) = from_decimal fp True (fixed_val ip fr)"
proof -
  have hd: "\<not> num_space (hd (fixed_lit ip fr))"
    using assms(1)
    by (cases ip) (auto simp: fixed_lit_def all_digits_def dest: isdigit_not_num_space)
  have lst: "\<not> num_space (last (fixed_lit ip fr))"
    using assms(2) all_digits_last [OF assms(2)]
    by (auto simp: fixed_lit_def all_digits_def dest: isdigit_not_num_space)
  have ne: "fixed_lit ip fr \<noteq> []" by (simp add: fixed_lit_def)
  have s1: "num_strip (w1 @ fixed_lit ip fr @ w2) = fixed_lit ip fr"
    using assms(3,4) ne hd lst by (rule num_strip_pad)
  have sg: "split_sign (fixed_lit ip fr) = (False, fixed_lit ip fr)"
    unfolding fixed_lit_def by (rule split_sign_digits [OF assms(1)])
  show "py_float fp (w1 @ fixed_lit ip fr @ w2) = from_decimal fp False (fixed_val ip fr)"
    using fixed_not_special [of ip fr]
    by (simp add: py_float_def s1 sg float_body_fixed [OF assms(1,2)])
  have lst': "\<not> num_space (last (''-'' @ fixed_lit ip fr))"
    using lst ne by simp
  have "num_strip (w1 @ (''-'' @ fixed_lit ip fr) @ w2) = ''-'' @ fixed_lit ip fr"
    using assms(3,4) lst' by (intro num_strip_pad) (simp_all add: num_space_def)
  then have s2: "num_strip (w1 @ CHR ''-'' # fixed_lit ip fr @ w2) = CHR ''-'' # fixed_lit ip fr"
    by simp
  show "py_float fp (w1 @ ''-'' @ fixed_lit ip fr @ w2) = from_decimal fp True (fixed_val ip fr)"
    using fixed_not_special [of ip fr]
    by (simp add: py_float_def s2 split_sign_def float_body_fixed [OF assms(1,2)])
qed

lemma lstrip_stop: "\<not> isspace c \<Longrightarrow> lstrip (x @ c # r) = lstrip x @ c # r"
  by (induction x) (auto simp: lstrip_def)

lemma set_lstrip: "set (lstrip x) \<subseteq> set x"
  by (simp add: lstrip_def set_dropWhileD subsetI)

lemma fixed_lit_chars:
  "all_digits ip \<Longrightarrow> all_digits fr \<Longrightarrow> c \<in> set (fixed_lit ip fr) \<Longrightarrow> isdigit c \<or> c = CHR ''.''"
  by (auto simp: fixed_lit_def all_digits_def list_all_iff)

lemma fixed_lit_notin:
  "all_digits ip \<Longrightarrow> all_digits fr \<Longrightarrow> \<not> isdigit c \<Longrightarrow> c \<noteq> CHR ''.'' \<Longrightarrow> c \<notin> set (fixed_lit ip fr)"
  using fixed_lit_chars by blast

lemma fixed_lit_hd: "all_digits ip \<Longrightarrow> isdigit (hd (fixed_lit ip fr @ t))"
  by (cases ip) (auto simp: fixed_lit_def all_digits_def)

lemma fixed_lit_last: "all_digits fr \<Longrightarrow> isdigit (last (s @ fixed_lit ip fr))"
  using all_digits_last [of fr] by (auto simp: fixed_lit_def all_digits_def)

lemma fixed_lit_ne: "fixed_lit ip fr \<noteq> []"
  by (simp add: fixed_lit_def)

lemma scan_line_data:
  assumes X: "CHR '':'' \<notin> set X"
    and N: "all_digits N"
    and F: "all_digits Fi" "all_digits Ff"
    and D: "all_digits Di" "all_digits Df"
    and P: "all_digits Pi" "all_digits Pf"
    and sg: "sg = CHR ''+'' \<or> sg = CHR ''-''"
  shows "strip (data_line X N (Fi, Ff) sg (Di, Df) (Pi, Pf)) \<noteq> [] \<and>
         scan_line fp band (strip (data_line X N (Fi, Ff) sg (Di, Df) (Pi, Pf))) =
           (if overflows fp (fixed_val Fi Ff) \<or> overflows fp (fixed_val Di Df)
               \<or> overflows fp (fixed_val Pi Pf)
            then Inl NonFinite
            else Inr (band, int (digits_val N), to_double fp (fixed_val Fi Ff),
                      (if sg = CHR ''-'' then - to_double fp (fixed_val Di Df)
                       else to_double fp (fixed_val Di Df)),
                      to_double fp (fixed_val Pi Pf)))"
proof -
  let ?F = "fixed_lit Fi Ff" and ?D = "fixed_lit Di Df" and ?P = "fixed_lit Pi Pf"
  define E where "E = ?D @ ''kHz) power''"
  define R where "R = ?F @ ''MHz'' @ [sg] @ E"
  define B where "B = N @ '' ('' @ R"
  have nc: "\<And>c s. all_digits s \<Longrightarrow> \<not> isdigit c \<Longrightarrow> c \<notin> set s"
    by (rule all_digits_notin)
  have fc: "\<And>c ip fr. all_digits ip \<Longrightarrow> all_digits fr \<Longrightarrow> \<not> isdigit c \<Longrightarrow> c \<noteq> CHR ''.''
      \<Longrightarrow> c \<notin> set (fixed_lit ip fr)"
    by (rule fixed_lit_notin)
  have Nne: "N \<noteq> []" using N by (simp add: all_digits_def)
  \<comment> \<open>the stripped line and its three fields\<close>
  have line: "data_line X N (Fi, Ff) sg (Di, Df) (Pi, Pf) = X @ CHR '':'' # ('' '' @ B) @ CHR '':'' # ('' '' @ ?P)"
    by (simp add: data_line_def B_def R_def E_def)
  have l1: "lstrip (X @ CHR '':'' # ('' '' @ B) @ CHR '':'' # ('' '' @ ?P)) =
              lstrip X @ CHR '':'' # ('' '' @ B) @ CHR '':'' # ('' '' @ ?P)"
    by (rule lstrip_stop) (simp add: isspace_def)
  have "\<not> isspace (last ((lstrip X @ CHR '':'' # ('' '' @ B) @ '': '') @ ?P))"
    using fixed_lit_last [OF P(2)] isdigit_not_space by blast
  then have l2: "rstrip (lstrip X @ CHR '':'' # ('' '' @ B) @ CHR '':'' # ('' '' @ ?P)) =
              lstrip X @ CHR '':'' # ('' '' @ B) @ CHR '':'' # ('' '' @ ?P)"
    by (intro rstrip_keep) simp
  have stripped: "strip (data_line X N (Fi, Ff) sg (Di, Df) (Pi, Pf)) =
      lstrip X @ CHR '':'' # ('' '' @ B) @ CHR '':'' # ('' '' @ ?P)"
    unfolding line strip_def l1 l2 ..
  have cE: "CHR '':'' \<notin> set E" "CHR ''('' \<notin> set E" "sg \<notin> set E"
    using D sg by (auto simp: E_def dest!: fixed_lit_chars [OF D] simp: isdigit_def)
  have cR: "CHR '':'' \<notin> set R" "CHR ''('' \<notin> set R"
    using F cE by (auto simp: R_def sg dest!: fixed_lit_chars [OF F] simp: isdigit_def)
      (use sg in auto)
  have cB: "CHR '':'' \<notin> set ('' '' @ B)"
    using cR nc [OF N, of "CHR '':''"] by (simp add: B_def isdigit_def)
  have cP: "CHR '':'' \<notin> set ('' '' @ ?P)"
    using fc [OF P, of "CHR '':''"] by (simp add: isdigit_def)
  have cX: "CHR '':'' \<notin> set (lstrip X)"
    using X set_lstrip by blast
  have fields: "split '':'' (strip (data_line X N (Fi, Ff) sg (Di, Df) (Pi, Pf))) =
      [lstrip X, '' '' @ B, '' '' @ ?P]"
    unfolding stripped
    by (simp only: split_first [OF cX] split_first [OF cB] split_none [OF cP])
  \<comment> \<open>the channel number\<close>
  have "\<not> isspace (hd B)" using N by (cases N) (auto simp: B_def all_digits_def dest: isdigit_not_space)
  moreover have "\<not> isspace (last B)" by (simp add: B_def R_def E_def isspace_def)
  moreover have "B \<noteq> []" using Nne by (simp add: B_def)
  ultimately have sB: "strip (CHR '' '' # B) = B"
    using strip_pad [of "'' ''" "[]" B] by (simp add: isspace_def)
  have cN: "CHR ''('' \<notin> set (N @ '' '')"
    using nc [OF N, of "CHR ''(''"] by (simp add: isdigit_def)
  have "split ''('' ((N @ '' '') @ CHR ''('' # R) = [N @ '' '', R]"
    by (simp only: split_first [OF cN] split_none [OF cR(2)])
  then have paren: "split ''('' B = [N @ '' '', R]"
    by (simp add: B_def)
  have num: "py_int (N @ '' '') = Inr (int (digits_val N))"
    using py_int_digits [OF N, of "[]" "'' ''"] by (simp add: num_space_def)
  \<comment> \<open>frequency and deviation\<close>
  have plus: "CHR ''+'' \<in> set R \<longleftrightarrow> sg = CHR ''+''"
    using F D by (auto simp: R_def E_def dest!: fixed_lit_chars [OF F] fixed_lit_chars [OF D]
        simp: isdigit_def)
  have "\<not> isspace (hd R)"
    using fixed_lit_hd [OF F(1)] isdigit_not_space by (auto simp: R_def)
  moreover have "\<not> isspace (last R)" by (simp add: R_def E_def isspace_def)
  moreover have "R \<noteq> []" by (simp add: R_def fixed_lit_ne)
  ultimately have sR: "strip R = R" by (intro strip_keep) simp
  have cF: "sg \<notin> set (?F @ ''MHz'')"
    using sg by (auto dest!: fixed_lit_chars [OF F] simp: isdigit_def)
  have "split [sg] ((?F @ ''MHz'') @ sg # E) = [?F @ ''MHz'', E]"
    by (simp only: split_first [OF cF] split_none [OF cE(3)])
  then have sign: "split [sg] R = [?F @ ''MHz'', E]"
    by (simp add: R_def)
  have "\<not> isspace (hd E)"
    using fixed_lit_hd [OF D(1)] isdigit_not_space by (auto simp: E_def)
  moreover have "\<not> isspace (last E)" by (simp add: E_def isspace_def)
  moreover have "E \<noteq> []" by (simp add: E_def)
  ultimately have sE: "strip E = E" by (intro strip_keep) simp
  have "\<not> isspace (hd (?F @ ''MHz''))"
    using fixed_lit_hd [OF F(1)] isdigit_not_space by blast
  then have sF: "strip (?F @ ''MHz'') = ?F @ ''MHz''"
    by (intro strip_keep) (simp add: isspace_def)
  have "last ?F \<notin> set ''MHz''"
    using fixed_lit_last [OF F(2), of "[]" Fi] by (auto simp: isdigit_def)
  then have "rstrip_chars ''MHz'' ?F = ?F" by (intro rstrip_chars_keep) simp
  then have rF: "rstrip_chars ''MHz'' (?F @ ''MHz'') = ?F"
    using rstrip_chars_drop [of "''MHz''" "''MHz''" ?F] by simp
  have vF: "py_float fp ?F = from_decimal fp False (fixed_val Fi Ff)"
    using py_float_fixed(1) [OF F, of "[]" "[]"] by simp
  \<comment> \<open>the deviation text, with or without the sign put back\<close>
  have dev: "\<And>s. s = [] \<or> s = ''-'' \<Longrightarrow>
      rstrip_chars ''kHz)'' (strip (rstrip_chars ''power'' (strip (s @ E)))) = s @ ?D"
  proof -
    fix s :: string assume s: "s = [] \<or> s = ''-''"
    have "\<not> isspace (hd (s @ E))"
      using s \<open>\<not> isspace (hd E)\<close> \<open>E \<noteq> []\<close> by (auto simp: isspace_def)
    moreover have "\<not> isspace (last (s @ E))"
      using \<open>\<not> isspace (last E)\<close> \<open>E \<noteq> []\<close> by simp
    ultimately have a: "strip (s @ E) = s @ E" by (intro strip_keep) simp
    have "rstrip_chars ''power'' ((s @ ?D @ ''kHz) '') @ ''power'') =
            rstrip_chars ''power'' (s @ ?D @ ''kHz) '')"
      by (rule rstrip_chars_drop) simp
    also have "\<dots> = s @ ?D @ ''kHz) ''"
      by (rule rstrip_chars_keep) simp
    finally have b: "rstrip_chars ''power'' (s @ E) = s @ ?D @ ''kHz) ''"
      by (simp add: E_def)
    have "\<not> isspace (hd (s @ ?D @ ''kHz)''))"
      using s fixed_lit_hd [OF D(1), of Df "''kHz)''"] isdigit_not_space
      by (auto simp: isspace_def)
    then have "strip ([] @ (s @ ?D @ ''kHz)'') @ '' '') = s @ ?D @ ''kHz)''"
      by (intro strip_pad) (simp_all add: isspace_def)
    then have c: "strip (s @ ?D @ ''kHz) '') = s @ ?D @ ''kHz)''" by simp
    have "last (s @ ?D) \<notin> set ''kHz)''"
      using fixed_lit_last [OF D(2), of s Di] by (auto simp: isdigit_def)
    then have "rstrip_chars ''kHz)'' (s @ ?D) = s @ ?D"
      by (intro rstrip_chars_keep) simp
    then have d: "rstrip_chars ''kHz)'' (s @ ?D @ ''kHz)'') = s @ ?D"
      using rstrip_chars_drop [of "''kHz)''" "''kHz)''" "s @ ?D"] by simp
    show "rstrip_chars ''kHz)'' (strip (rstrip_chars ''power'' (strip (s @ E)))) = s @ ?D"
      by (simp only: a b c d)
  qed
  have vD: "py_float fp ?D = from_decimal fp False (fixed_val Di Df)"
    "py_float fp (CHR ''-'' # ?D) = from_decimal fp True (fixed_val Di Df)"
    using py_float_fixed [OF D, of "[]" "[]"] by simp_all
  \<comment> \<open>the power\<close>
  have vP: "py_float fp (strip (CHR '' '' # ?P)) = from_decimal fp False (fixed_val Pi Pf)"
  proof -
    have "strip ('' '' @ ?P @ []) = ?P"
      using fixed_lit_hd [OF P(1), of Pf "[]"] fixed_lit_last [OF P(2), of "[]" Pi]
      by (intro strip_pad) (auto simp: isspace_def fixed_lit_ne dest: isdigit_not_space)
    then show ?thesis using py_float_fixed(1) [OF P, of "[]" "[]"] by simp
  qed
  have ne: "strip (data_line X N (Fi, Ff) sg (Di, Df) (Pi, Pf)) \<noteq> []"
    unfolding stripped by simp
  have run: "scan_line fp band (strip (data_line X N (Fi, Ff) sg (Di, Df) (Pi, Pf))) =
           (if overflows fp (fixed_val Fi Ff) \<or> overflows fp (fixed_val Di Df)
               \<or> overflows fp (fixed_val Pi Pf)
            then Inl NonFinite
            else Inr (band, int (digits_val N), to_double fp (fixed_val Fi Ff),
                      (if sg = CHR ''-'' then - to_double fp (fixed_val Di Df)
                       else to_double fp (fixed_val Di Df)),
                      to_double fp (fixed_val Pi Pf)))"
  proof (cases "sg = CHR ''+''")
    case True
    have "rstrip_chars ''kHz)'' (strip (rstrip_chars ''power'' (strip E))) = ?D"
      using dev [of "[]"] by simp
    then show ?thesis
      unfolding scan_line_def fields
      using True plus sign
      by (simp add: unpack3_def unpack2_def sB paren num sR sF rF vF vD vP from_decimal_def)
  next
    case False
    then have m: "sg = CHR ''-''" using sg by simp
    have "rstrip_chars ''kHz)'' (strip (rstrip_chars ''power'' (strip (CHR ''-'' # E)))) =
            CHR ''-'' # ?D"
      using dev [of "''-''"] by simp
    then show ?thesis
      unfolding scan_line_def fields
      using False m plus sign
      by (simp add: unpack3_def unpack2_def sB paren num sR sE sF rF vF vD vP from_decimal_def)
  qed
  from ne run show ?thesis ..
qed

lemma scan_loop_filter:
  "scan_loop fp band (filter (\<lambda>l. strip l \<noteq> []) lines) chlist = scan_loop fp band lines chlist"
proof (induction lines arbitrary: chlist)
  case Nil
  show ?case by simp
next
  case (Cons l lines)
  show ?case
  proof (cases "strip l = []")
    case True
    then show ?thesis using Cons by simp
  next
    case False
    show ?thesis
    proof (cases "scan_line fp band (strip l)")
      case (Inl e)
      then show ?thesis using False by simp
    next
      case (Inr c)
      then show ?thesis using False Cons by simp
    qed
  qed
qed

lemma scan_loop_blank:
  "\<forall>l\<in>set lines. strip l = [] \<Longrightarrow> scan_loop fp band lines chlist = Inr chlist"
  by (induction lines) simp_all

lemma scan_loop_error:
  "scan_loop fp band lines chlist = Inl e \<Longrightarrow>
   \<exists>l\<in>set lines. strip l \<noteq> [] \<and> scan_line fp band (strip l) = Inl e"
proof (induction lines arbitrary: chlist)
  case Nil
  then show ?case by simp
next
  case (Cons l lines)
  show ?case
  proof (cases "strip l = []")
    case True
    then have "scan_loop fp band lines chlist = Inl e" using Cons.prems by simp
    from Cons.IH [OF this] show ?thesis by auto
  next
    case False
    show ?thesis
    proof (cases "scan_line fp band (strip l)")
      case (Inl e')
      then have "e' = e" using Cons.prems False by simp
      then show ?thesis using Inl False by auto
    next
      case (Inr c)
      then have "scan_loop fp band lines (chlist @ [c]) = Inl e" using Cons.prems False by simp
      from Cons.IH [OF this] show ?thesis by auto
    qed
  qed
qed

lemma listChannels_eq:
  assumes "run k [BIN, ''-s'', band] = Inr out" "list_all (\<lambda>c. (of_char c :: nat) < 128) out"
  shows "listChannels fp run k band = scan_loop fp band (drop 1 (split [CHR 0x0A] out)) []"
  using assms by (simp add: listChannels_def decode_ascii_def)

lemma drop_first_line:
  "CHR 0x0A \<notin> set first \<Longrightarrow>
   drop 1 (split [CHR 0x0A] (first @ [CHR 0x0A] @ rest)) = split [CHR 0x0A] rest"
  by (simp add: split_first)

subsection \<open>Results on the scan output\<close>

text \<open>
  C8, as stated, at a data line of the form the claim gives, with \<open>power\<close> before
  the closing parenthesis: the text left for the deviation is
  \<^verbatim>\<open>0.02kHz power\<close>, which \<^verbatim>\<open>float\<close> rejects, so no record is built,
  whatever the arithmetic of floats.
\<close>

theorem listChannels_claimed_form_counterexample:
  "\<forall>fp. listChannels fp
     (replay [''kal: scan\<newline>X: 5 (935.20MHz+0.02kHz power): 55.23\<newline>'']) 0 ''GSM900'' =
     (if overflows fp (9352 / 10) then Inl NonFinite else Inl ValueError)"
proof
  fix fp
  let ?out = "''kal: scan\<newline>X: 5 (935.20MHz+0.02kHz power): 55.23\<newline>''"
  have lines: "drop 1 (split [CHR 0x0A] ?out) = [''X: 5 (935.20MHz+0.02kHz power): 55.23'', []]"
    by code_simp
  have fields: "split '':'' (strip ''X: 5 (935.20MHz+0.02kHz power): 55.23'') =
      [''X'', '' 5 (935.20MHz+0.02kHz power)'', '' 55.23'']"
    by code_simp
  have paren: "split ''('' (strip '' 5 (935.20MHz+0.02kHz power)'') =
      [''5 '', ''935.20MHz+0.02kHz power)'']"
    by code_simp
  have num: "py_int ''5 '' = Inr 5" by code_simp
  have sign: "split ''+'' (strip ''935.20MHz+0.02kHz power)'') = [''935.20MHz'', ''0.02kHz power)'']"
    by code_simp
  have f: "rstrip_chars ''MHz'' (strip ''935.20MHz'') = fixed_lit ''935'' ''20''"
    by code_simp
  have d: "all_digits ''935''" "all_digits ''20''"
    by (simp_all add: all_digits_def isdigit_def)
  have v: "fixed_val ''935'' ''20'' = 9352 / 10"
    by (simp add: fixed_val_def digits_val_def isdigit_def digit_val_def)
  have "py_float fp ([] @ fixed_lit ''935'' ''20'' @ []) = from_decimal fp False (fixed_val ''935'' ''20'')"
    using d by (rule py_float_fixed(1)) simp_all
  then have freq: "py_float fp (fixed_lit ''935'' ''20'') = from_decimal fp False (9352 / 10)"
    by (simp add: v)
  have e: "rstrip_chars ''kHz)'' (strip (rstrip_chars ''power'' (strip ''0.02kHz power)''))) =
      ''0.02kHz power''"
    by code_simp
  have "num_strip ''0.02kHz power'' = ''0.02kHz power''" by code_simp
  moreover have "split_sign ''0.02kHz power'' = (False, ''0.02kHz power'')" by code_simp
  moreover have "float_body ''0.02kHz power'' = None" by code_simp
  ultimately have err: "py_float fp ''0.02kHz power'' = Inl ValueError"
    by (simp add: py_float_def lower_def)
  have line: "scan_line fp ''GSM900'' (strip ''X: 5 (935.20MHz+0.02kHz power): 55.23'') =
      (if overflows fp (9352 / 10) then Inl NonFinite else Inl ValueError)"
    unfolding scan_line_def fields
    by (simp add: unpack3_def unpack2_def paren num sign f freq e err from_decimal_def)
  have ne: "strip ''X: 5 (935.20MHz+0.02kHz power): 55.23'' \<noteq> []" by code_simp
  have "listChannels fp (replay [?out]) 0 ''GSM900'' =
      scan_loop fp ''GSM900'' (drop 1 (split [CHR 0x0A] ?out)) []"
    by (rule listChannels_eq) (simp_all add: replay_def)
  then show "listChannels fp (replay [?out]) 0 ''GSM900'' =
      (if overflows fp (9352 / 10) then Inl NonFinite else Inl ValueError)"
    unfolding lines using ne by (simp add: line)
qed

text \<open>
  C8, amended. The first line of the output is discarded, whatever it holds. A data line
  of the form \<^verbatim>\<open>X: N (freq.FFMHz<+|->dev.DDkHz) power: P.PP\<close>, the closing
  parenthesis before \<open>power\<close>, yields the record of the band, \<open>N\<close>, the frequency,
  the deviation and the power, each number the double of the value written; the
  deviation stored is the double of the value after the sign, negated when the sign is
  \<open>-\<close>, so a deviation that is not zero is negative exactly when the sign is
  \<open>-\<close>. No record is built from a number too large for a double.
\<close>

theorem listChannels_parses_data_lines:
  "(run k [BIN, ''-s'', band] = Inr (first @ [CHR 0x0A] @ rest) \<and>
    list_all (\<lambda>c. (of_char c :: nat) < 128) (first @ [CHR 0x0A] @ rest) \<and>
    CHR 0x0A \<notin> set first \<longrightarrow>
      listChannels fp run k band = scan_loop fp band (split [CHR 0x0A] rest) []) \<and>
   (CHR '':'' \<notin> set X \<and> all_digits N \<and> all_digits Fi \<and> all_digits Ff \<and>
    all_digits Di \<and> all_digits Df \<and> all_digits Pi \<and> all_digits Pf \<and>
    (sg = CHR ''+'' \<or> sg = CHR ''-'') \<longrightarrow>
      scan_loop fp band (data_line X N (Fi, Ff) sg (Di, Df) (Pi, Pf) # lines) chlist =
        (if overflows fp (fixed_val Fi Ff) \<or> overflows fp (fixed_val Di Df)
            \<or> overflows fp (fixed_val Pi Pf)
         then Inl NonFinite
         else scan_loop fp band lines
           (chlist @ [(band, int (digits_val N), to_double fp (fixed_val Fi Ff),
                       (if sg = CHR ''-'' then - to_double fp (fixed_val Di Df)
                        else to_double fp (fixed_val Di Df)),
                       to_double fp (fixed_val Pi Pf))])) \<and>
      0 \<le> fixed_val Di Df \<and>
      (0 < to_double fp (fixed_val Di Df) \<longrightarrow>
         ((if sg = CHR ''-'' then - to_double fp (fixed_val Di Df)
           else to_double fp (fixed_val Di Df)) < 0
            \<longleftrightarrow> sg = CHR ''-'')))"
proof (intro conjI impI)
  assume a: "run k [BIN, ''-s'', band] = Inr (first @ [CHR 0x0A] @ rest) \<and>
    list_all (\<lambda>c. (of_char c :: nat) < 128) (first @ [CHR 0x0A] @ rest) \<and>
    CHR 0x0A \<notin> set first"
  then have "listChannels fp run k band =
      scan_loop fp band (drop 1 (split [CHR 0x0A] (first @ [CHR 0x0A] @ rest))) []"
    by (intro listChannels_eq) simp_all
  moreover have nl: "CHR 0x0A \<notin> set first" using a by simp
  ultimately show "listChannels fp run k band = scan_loop fp band (split [CHR 0x0A] rest) []"
    by (simp only: drop_first_line [OF nl])
next
  assume a: "CHR '':'' \<notin> set X \<and> all_digits N \<and> all_digits Fi \<and> all_digits Ff \<and>
    all_digits Di \<and> all_digits Df \<and> all_digits Pi \<and> all_digits Pf \<and>
    (sg = CHR ''+'' \<or> sg = CHR ''-'')"
  then have "strip (data_line X N (Fi, Ff) sg (Di, Df) (Pi, Pf)) \<noteq> [] \<and>
         scan_line fp band (strip (data_line X N (Fi, Ff) sg (Di, Df) (Pi, Pf))) =
           (if overflows fp (fixed_val Fi Ff) \<or> overflows fp (fixed_val Di Df)
               \<or> overflows fp (fixed_val Pi Pf)
            then Inl NonFinite
            else Inr (band, int (digits_val N), to_double fp (fixed_val Fi Ff),
                      (if sg = CHR ''-'' then - to_double fp (fixed_val Di Df)
                       else to_double fp (fixed_val Di Df)),
                      to_double fp (fixed_val Pi Pf)))"
    by (intro scan_line_data) simp_all
  then show "scan_loop fp band (data_line X N (Fi, Ff) sg (Di, Df) (Pi, Pf) # lines) chlist =
        (if overflows fp (fixed_val Fi Ff) \<or> overflows fp (fixed_val Di Df)
            \<or> overflows fp (fixed_val Pi Pf)
         then Inl NonFinite
         else scan_loop fp band lines
           (chlist @ [(band, int (digits_val N), to_double fp (fixed_val Fi Ff),
                       (if sg = CHR ''-'' then - to_double fp (fixed_val Di Df)
                        else to_double fp (fixed_val Di Df)),
                       to_double fp (fixed_val Pi Pf))]))"
    by simp
next
  show "0 \<le> fixed_val Di Df" by (simp add: fixed_val_def)
next
  assume "0 < to_double fp (fixed_val Di Df)"
  then show "((if sg = CHR ''-'' then - to_double fp (fixed_val Di Df)
           else to_double fp (fixed_val Di Df)) < 0) = (sg = CHR ''-'')"
    by simp
qed

theorem listChannels_parses_data_lines_witness:
  "listChannels exact_arith
     (replay [''kal: scan\<newline>chan: 1 (935.20MHz-0.15kHz) power: 55.23'']) 0 ''GSM900'' =
     Inr [(''GSM900'', 1, 9352 / 10, - (15 / 100), 5523 / 100)]"
proof -
  let ?out = "''kal: scan'' @ [CHR 0x0A] @ ''chan: 1 (935.20MHz-0.15kHz) power: 55.23''"
  let ?run = "replay [''kal: scan\<newline>chan: 1 (935.20MHz-0.15kHz) power: 55.23'']"
  have out: "?run 0 [BIN, ''-s'', ''GSM900''] = Inr ?out"
    by (simp add: replay_def)
  have ascii: "list_all (\<lambda>c. (of_char c :: nat) < 128) ?out" by simp
  have nl: "CHR 0x0A \<notin> set ''kal: scan''" by simp
  have first: "listChannels exact_arith ?run 0 ''GSM900'' =
      scan_loop exact_arith ''GSM900''
        (split [CHR 0x0A] ''chan: 1 (935.20MHz-0.15kHz) power: 55.23'') []"
    using listChannels_parses_data_lines
      [where run = ?run and k = 0 and band = "''GSM900''" and first = "''kal: scan''"
         and rest = "''chan: 1 (935.20MHz-0.15kHz) power: 55.23''" and fp = exact_arith]
      out ascii nl by blast
  have sp: "split [CHR 0x0A] ''chan: 1 (935.20MHz-0.15kHz) power: 55.23'' =
      [data_line ''chan'' ''1'' (''935'', ''20'') CHR ''-'' (''0'', ''15'') (''55'', ''23'')]"
    by (simp add: split_none data_line_def fixed_lit_def)
  have d: "all_digits ''1''" "all_digits ''935''" "all_digits ''20''" "all_digits ''0''"
    "all_digits ''15''" "all_digits ''55''" "all_digits ''23''"
    by (simp_all add: all_digits_def isdigit_def)
  have c: "CHR '':'' \<notin> set ''chan''" by simp
  have s: "CHR ''-'' = CHR ''+'' \<or> CHR ''-'' = CHR ''-''" by simp
  have line: "scan_loop exact_arith ''GSM900''
      [data_line ''chan'' ''1'' (''935'', ''20'') CHR ''-'' (''0'', ''15'') (''55'', ''23'')] [] =
      (if overflows exact_arith (fixed_val ''935'' ''20'')
          \<or> overflows exact_arith (fixed_val ''0'' ''15'')
          \<or> overflows exact_arith (fixed_val ''55'' ''23'')
       then Inl NonFinite
       else scan_loop exact_arith ''GSM900'' []
        ([] @ [(''GSM900'', int (digits_val ''1''), to_double exact_arith (fixed_val ''935'' ''20''),
          (if CHR ''-'' = CHR ''-'' then - to_double exact_arith (fixed_val ''0'' ''15'')
           else to_double exact_arith (fixed_val ''0'' ''15'')),
          to_double exact_arith (fixed_val ''55'' ''23''))]))"
    using listChannels_parses_data_lines
      [where fp = exact_arith and band = "''GSM900''" and X = "''chan''" and N = "''1''"
         and Fi = "''935''" and Ff = "''20''" and Di = "''0''" and Df = "''15''"
         and Pi = "''55''" and Pf = "''23''" and sg = "CHR ''-''" and lines = "[]"
         and chlist = "[]"]
      c d s by blast
  have v: "digits_val ''1'' = 1" "fixed_val ''935'' ''20'' = 9352 / 10"
    "fixed_val ''0'' ''15'' = 15 / 100" "fixed_val ''55'' ''23'' = 5523 / 100"
    by (simp_all add: fixed_val_def digits_val_def isdigit_def digit_val_def)
  show ?thesis
    unfolding first sp line by (simp add: v exact_arith_def)
qed

text \<open>
  C10. Lines after the first that are empty or hold only whitespace change nothing: the
  result is the one obtained with those lines left out, and an output with no other lines
  gives the empty list. When \<^verbatim>\<open>listChannels\<close> raises while reading the lines, a line
  that is not blank is the one whose parsing raised.
\<close>

theorem listChannels_skips_blank_lines:
  assumes "run k [BIN, ''-s'', band] = Inr out"
    and "list_all (\<lambda>c. (of_char c :: nat) < 128) out"
  shows "listChannels fp run k band =
           scan_loop fp band (filter (\<lambda>l. strip l \<noteq> []) (drop 1 (split [CHR 0x0A] out))) [] \<and>
         ((\<forall>l\<in>set (drop 1 (split [CHR 0x0A] out)). strip l = []) \<longrightarrow>
            listChannels fp run k band = Inr []) \<and>
         (\<forall>e. listChannels fp run k band = Inl e \<longrightarrow>
            (\<exists>l\<in>set (drop 1 (split [CHR 0x0A] out)).
               strip l \<noteq> [] \<and> scan_line fp band (strip l) = Inl e))"
proof -
  have eq: "listChannels fp run k band = scan_loop fp band (drop 1 (split [CHR 0x0A] out)) []"
    using assms by (rule listChannels_eq)
  show ?thesis
    unfolding eq
    by (intro conjI allI impI) (simp_all add: scan_loop_filter scan_loop_blank scan_loop_error)
qed

theorem listChannels_skips_blank_lines_witness:
  "listChannels exact_arith
     (replay [''kal: scan\<newline>  \<newline>\<newline>chan: 1 (935.20MHz-0.15kHz) power: 55.23\<newline> \<newline>'']) 0 ''GSM900'' =
     Inr [(''GSM900'', 1, 9352 / 10, - (15 / 100), 5523 / 100)]"
proof -
  let ?run = "replay [''kal: scan\<newline>  \<newline>\<newline>chan: 1 (935.20MHz-0.15kHz) power: 55.23\<newline> \<newline>'']"
  let ?out = "''kal: scan\<newline>  \<newline>\<newline>chan: 1 (935.20MHz-0.15kHz) power: 55.23\<newline> \<newline>''"
  have out: "?run 0 [BIN, ''-s'', ''GSM900''] = Inr ?out"
    by (simp add: replay_def)
  have ascii: "list_all (\<lambda>c. (of_char c :: nat) < 128) ?out" by simp
  have lines: "filter (\<lambda>l. strip l \<noteq> []) (drop 1 (split [CHR 0x0A] ?out)) =
      [''chan: 1 (935.20MHz-0.15kHz) power: 55.23'']"
    by code_simp
  have one: "scan_loop exact_arith ''GSM900'' [''chan: 1 (935.20MHz-0.15kHz) power: 55.23''] [] =
      Inr [(''GSM900'', 1, 9352 / 10, - (15 / 100), 5523 / 100)]"
    by code_simp
  from listChannels_skips_blank_lines [of ?run 0 "''GSM900''" ?out exact_arith] out ascii
  have "listChannels exact_arith ?run 0 ''GSM900'' =
      scan_loop exact_arith ''GSM900''
        (filter (\<lambda>l. strip l \<noteq> []) (drop 1 (split [CHR 0x0A] ?out))) []"
    by blast
  then show ?thesis unfolding lines one .
qed

subsection \<open>Printing and reading back integers\<close>

lemma digits_of_small: "n < 10 \<Longrightarrow> digits_of n = [digit_chr n]"
  by (simp add: digits_of.simps)

lemma digits_of_big: "10 \<le> n \<Longrightarrow> digits_of n = digits_of (n div 10) @ [digit_chr (n mod 10)]"
  by (subst digits_of.simps) simp

lemma digit_chr_cases:
  assumes "d < 10"
  shows "of_char (digit_chr d) = 48 + d"
proof -
  from assms have "d = 0 \<or> d = 1 \<or> d = 2 \<or> d = 3 \<or> d = 4 \<or> d = 5 \<or> d = 6 \<or> d = 7 \<or> d = 8 \<or> d = 9"
    by arith
  then show ?thesis
    by (elim disjE) (simp_all add: digit_chr_def)
qed

lemma isdigit_digit_chr: "d < 10 \<Longrightarrow> isdigit (digit_chr d)"
  by (simp add: isdigit_def digit_chr_cases)

lemma digit_val_digit_chr: "d < 10 \<Longrightarrow> digit_val (digit_chr d) = d"
  by (simp add: digit_val_def digit_chr_cases)

lemma digits_val_snoc:
  "isdigit c \<Longrightarrow> digits_val (s @ [c]) = 10 * digits_val s + digit_val c"
  by (simp add: digits_val_def)

lemma digits_val_single: "isdigit c \<Longrightarrow> digits_val [c] = digit_val c"
  by (simp add: digits_val_def)

lemma digits_of_digits: "list_all isdigit (digits_of n) \<and> digits_of n \<noteq> []"
proof (induction n rule: digits_of.induct)
  case (1 n)
  show ?case
  proof (cases "n < 10")
    case True
    then show ?thesis by (simp add: digits_of_small isdigit_digit_chr)
  next
    case False
    then show ?thesis using 1 by (simp add: digits_of_big isdigit_digit_chr)
  qed
qed

lemma all_digits_digits_of: "all_digits (digits_of n)"
  using digits_of_digits by (simp add: all_digits_def)

lemma digits_val_digits_of: "digits_val (digits_of n) = n"
proof (induction n rule: digits_of.induct)
  case (1 n)
  show ?case
  proof (cases "n < 10")
    case True
    then show ?thesis
      by (simp add: digits_of_small digits_val_single isdigit_digit_chr digit_val_digit_chr)
  next
    case False
    then have "digits_val (digits_of n) = 10 * (n div 10) + n mod 10"
      using 1 by (simp add: digits_of_big digits_val_snoc isdigit_digit_chr digit_val_digit_chr)
    then show ?thesis by simp
  qed
qed

lemma length_digits_of: "n < 10 ^ p \<Longrightarrow> 0 < p \<Longrightarrow> length (digits_of n) \<le> p"
proof (induction n arbitrary: p rule: digits_of.induct)
  case (1 n)
  show ?case
  proof (cases "n < 10")
    case True
    then show ?thesis using "1.prems" by (simp add: digits_of_small)
  next
    case False
    obtain q where p: "p = Suc q" using "1.prems"(2) by (cases p) auto
    have "n div 10 < 10 ^ q" using "1.prems"(1) p by (simp add: less_mult_imp_div_less mult.commute)
    moreover have "0 < q"
    proof (rule ccontr)
      assume "\<not> 0 < q"
      then have "n < 10" using "1.prems"(1) p by simp
      with False show False by simp
    qed
    ultimately have "length (digits_of (n div 10)) \<le> q"
      using "1.IH" False by simp
    then show ?thesis using False p by (simp add: digits_of_big)
  qed
qed

lemma py_int_str_int: "py_int (str_int i) = Inr i"
proof (cases "i < 0")
  case True
  let ?s = "digits_of (nat (- i))"
  have ne: "?s \<noteq> []" using digits_of_digits by simp
  have "\<not> num_space (last (CHR ''-'' # ?s))"
    using all_digits_last [OF all_digits_digits_of, of "nat (- i)"] ne
    by (auto dest: isdigit_not_num_space)
  then have "num_strip ([] @ (CHR ''-'' # ?s) @ []) = CHR ''-'' # ?s"
    by (intro num_strip_pad) (simp_all add: num_space_def)
  then have "num_strip (CHR ''-'' # ?s) = CHR ''-'' # ?s" by simp
  then show ?thesis
    using True
    by (simp add: py_int_def str_int_def split_sign_def all_digits_digitpart
        all_digits_digits_of digits_val_digits_of)
next
  case False
  have "py_int ([] @ digits_of (nat i) @ []) = Inr (int (digits_val (digits_of (nat i))))"
    by (rule py_int_digits) (simp_all add: all_digits_digits_of)
  then show ?thesis using False by (simp add: str_int_def digits_val_digits_of)
qed

subsection \<open>Printing and reading back fixed-point numbers\<close>

lemma digits_val_zero_cons: "digits_val (CHR ''0'' # s) = digits_val s"
  by (simp add: digits_val_def isdigit_def digit_val_def)

lemma digits_val_zeros: "digits_val (replicate k CHR ''0'' @ s) = digits_val s"
  by (induction k) (simp_all add: digits_val_zero_cons)

lemma zfill_props:
  assumes "m < 10 ^ p" "0 < p"
  shows "all_digits (zfill p (digits_of m))"
    and "length (zfill p (digits_of m)) = p"
    and "digits_val (zfill p (digits_of m)) = m"
proof -
  have len: "length (digits_of m) \<le> p" using assms by (rule length_digits_of)
  have z: "isdigit CHR ''0''" by (simp add: isdigit_def)
  show "all_digits (zfill p (digits_of m))"
    using digits_of_digits [of m] z by (auto simp: all_digits_def zfill_def list_all_iff)
  show "length (zfill p (digits_of m)) = p"
    using len by (simp add: zfill_def)
  show "digits_val (zfill p (digits_of m)) = m"
    by (simp add: zfill_def digits_val_zeros digits_val_digits_of)
qed

lemma round_half_even_near: "\<bar>of_int (round_half_even y) - y\<bar> \<le> 1 / 2"
proof -
  have "of_int \<lfloor>y\<rfloor> \<le> y" "y < of_int \<lfloor>y\<rfloor> + 1" by linarith+
  then show ?thesis
    by (auto simp: round_half_even_def Let_def)
qed

lemma round_half_even_nonneg: "0 \<le> y \<Longrightarrow> 0 \<le> round_half_even y"
proof -
  assume "0 \<le> y"
  then have "0 \<le> \<lfloor>y\<rfloor>" by simp
  then show ?thesis by (auto simp: round_half_even_def Let_def)
qed

lemma decimal_near: "\<bar>decimal p x - \<bar>x\<bar>\<bar> \<le> 1 / (2 * 10 ^ p)"
proof -
  let ?q = "of_int (round_half_even (\<bar>x\<bar> * 10 ^ p)) :: real"
  have "\<bar>?q - \<bar>x\<bar> * 10 ^ p\<bar> \<le> 1 / 2" by (rule round_half_even_near)
  then have "\<bar>?q - \<bar>x\<bar> * 10 ^ p\<bar> / 10 ^ p \<le> (1 / 2) / 10 ^ p"
    by (intro divide_right_mono) simp_all
  moreover have "\<bar>?q - \<bar>x\<bar> * 10 ^ p\<bar> / 10 ^ p = \<bar>?q / 10 ^ p - \<bar>x\<bar>\<bar>"
  proof -
    have e: "?q / 10 ^ p - \<bar>x\<bar> = (?q - \<bar>x\<bar> * 10 ^ p) / 10 ^ p"
      by (simp add: diff_divide_distrib)
    have "\<bar>(?q - \<bar>x\<bar> * 10 ^ p) / 10 ^ p\<bar> = \<bar>?q - \<bar>x\<bar> * 10 ^ p\<bar> / \<bar>10 ^ p\<bar>"
      by (rule abs_divide)
    then show ?thesis unfolding e by simp
  qed
  ultimately show ?thesis by (simp add: decimal_def)
qed

lemma rounded_near:
  "\<bar>rounded fp p x - x\<bar> \<le> 1 / (2 * 10 ^ p) + conversion_error fp (decimal p x)"
proof -
  let ?v = "decimal p x"
  have b: "\<bar>?v - \<bar>x\<bar>\<bar> \<le> 1 / (2 * 10 ^ p)" by (rule decimal_near)
  show ?thesis
  proof (cases "x < 0")
    case True
    then have "rounded fp p x - x = - (to_double fp ?v - ?v) - (?v - \<bar>x\<bar>)"
      by (simp add: rounded_def)
    then have "\<bar>rounded fp p x - x\<bar> \<le> \<bar>to_double fp ?v - ?v\<bar> + \<bar>?v - \<bar>x\<bar>\<bar>"
      by linarith
    with b show ?thesis by (simp add: conversion_error_def)
  next
    case False
    then have "rounded fp p x - x = (to_double fp ?v - ?v) + (?v - \<bar>x\<bar>)"
      by (simp add: rounded_def)
    then have "\<bar>rounded fp p x - x\<bar> \<le> \<bar>to_double fp ?v - ?v\<bar> + \<bar>?v - \<bar>x\<bar>\<bar>"
      by linarith
    with b show ?thesis by (simp add: conversion_error_def)
  qed
qed

lemma numeric_notin: "numeric s \<Longrightarrow> \<not> isdigit c \<Longrightarrow> c \<noteq> CHR ''.'' \<Longrightarrow> c \<noteq> CHR ''-'' \<Longrightarrow> c \<notin> set s"
  by (auto simp: numeric_def)

lemma numeric_str_int: "numeric (str_int i)"
  using digits_of_digits [of "nat i"] digits_of_digits [of "nat (- i)"]
  by (auto simp: numeric_def str_int_def list_all_iff)

lemma fmt_fixed_form:
  assumes "0 < p"
  shows "fmt_fixed p x =
           (if x < 0 then ''-'' else [])
             @ fixed_lit (digits_of (nat (round_half_even (\<bar>x\<bar> * 10 ^ p)) div 10 ^ p))
                         (zfill p (digits_of (nat (round_half_even (\<bar>x\<bar> * 10 ^ p)) mod 10 ^ p)))"
  using assms by (simp add: fmt_fixed_def Let_def fixed_lit_def)

lemma numeric_fmt_fixed:
  assumes "0 < p"
  shows "numeric (fmt_fixed p x)"
proof -
  let ?q = "nat (round_half_even (\<bar>x\<bar> * 10 ^ p))"
  have a: "all_digits (digits_of (?q div 10 ^ p))" by (rule all_digits_digits_of)
  have b: "all_digits (zfill p (digits_of (?q mod 10 ^ p)))"
    using assms by (intro zfill_props(1)) simp_all
  show ?thesis
    unfolding fmt_fixed_form [OF assms] numeric_def
    using fixed_lit_chars [OF a b] by auto
qed

lemma py_float_fmt_fixed:
  assumes "0 < p" "list_all num_space w"
  shows "py_float fp (fmt_fixed p x @ w) = from_decimal fp (x < 0) (decimal p x)"
proof -
  define r where "r = round_half_even (\<bar>x\<bar> * 10 ^ p)"
  define q where "q = nat r"
  define d where "d = (10::nat) ^ p"
  define ip where "ip = digits_of (q div d)"
  define fr where "fr = zfill p (digits_of (q mod d))"
  have a: "all_digits ip" unfolding ip_def by (rule all_digits_digits_of)
  have m: "q mod d < 10 ^ p" by (simp add: d_def)
  have b: "all_digits fr" unfolding fr_def using m assms(1) by (rule zfill_props(1))
  have len: "length fr = p" unfolding fr_def using m assms(1) by (rule zfill_props(2))
  have fv: "digits_val fr = q mod d" unfolding fr_def using m assms(1) by (rule zfill_props(3))
  have iv: "digits_val ip = q div d" unfolding ip_def by (rule digits_val_digits_of)
  have "0 \<le> r" unfolding r_def by (rule round_half_even_nonneg) simp
  then have qr: "real q = of_int r" by (simp add: q_def)
  have rd: "real d = 10 ^ p" by (simp add: d_def)
  have "real (q div d * d + q mod d) = real q"
    by (rule arg_cong [where f = real]) (rule div_mult_mod_eq)
  then have "real (q div d) * real d + real (q mod d) = real q"
    by (simp only: of_nat_add of_nat_mult)
  then have e1: "real q = real (q div d) * 10 ^ p + real (q mod d)"
    unfolding rd by simp
  have "real q / 10 ^ p = real (q div d) + real (q mod d) / 10 ^ p"
    by (subst e1) (simp add: add_divide_distrib)
  then have val: "fixed_val ip fr = of_int r / 10 ^ p"
    unfolding fixed_val_def iv fv len qr by simp
  have form: "fmt_fixed p x = (if x < 0 then ''-'' else []) @ fixed_lit ip fr"
    unfolding fmt_fixed_form [OF assms(1)] ip_def fr_def q_def r_def d_def ..
  have rv: "decimal p x = of_int r / 10 ^ p"
    unfolding decimal_def r_def ..
  show ?thesis
  proof (cases "x < 0")
    case True
    have "py_float fp ([] @ ''-'' @ fixed_lit ip fr @ w) = from_decimal fp True (fixed_val ip fr)"
      using a b _ assms(2) by (rule py_float_fixed(2)) simp
    then show ?thesis
      unfolding form rv val using True by simp
  next
    case False
    have "py_float fp ([] @ fixed_lit ip fr @ w) = from_decimal fp False (fixed_val ip fr)"
      using a b _ assms(2) by (rule py_float_fixed(1)) simp
    then show ?thesis
      unfolding form rv val using False by simp
  qed
qed

subsection \<open>A saved line read back\<close>

lemma split_save_line:
  assumes "CHR '','' \<notin> set b"
  shows "split '','' (save_line (b, ch, f, d, p)) =
           [b, str_int ch, fmt_fixed 6 f, fmt_fixed 6 d, fmt_fixed 2 p @ [CHR 0x0A]]"
proof -
  have c1: "CHR '','' \<notin> set (str_int ch)"
    by (rule numeric_notin [OF numeric_str_int]) (simp_all add: isdigit_def)
  have c2: "CHR '','' \<notin> set (fmt_fixed 6 f)"
    by (rule numeric_notin [OF numeric_fmt_fixed]) (simp_all add: isdigit_def)
  have c3: "CHR '','' \<notin> set (fmt_fixed 6 d)"
    by (rule numeric_notin [OF numeric_fmt_fixed]) (simp_all add: isdigit_def)
  have "CHR '','' \<notin> set (fmt_fixed 2 p)"
    by (rule numeric_notin [OF numeric_fmt_fixed]) (simp_all add: isdigit_def)
  then have c4: "CHR '','' \<notin> set (fmt_fixed 2 p @ [CHR 0x0A])" by simp
  have "save_line (b, ch, f, d, p) =
      b @ CHR '','' # str_int ch @ CHR '','' # fmt_fixed 6 f @ CHR '','' # fmt_fixed 6 d
        @ CHR '','' # (fmt_fixed 2 p @ [CHR 0x0A])"
    by (simp add: save_line_def)
  then show ?thesis
    by (simp only: split_first [OF assms] split_first [OF c1] split_first [OF c2]
        split_first [OF c3] split_none [OF c4])
qed

lemma load_line_save_line:
  assumes "CHR '','' \<notin> set (band_of c)"
  shows "load_line fp (save_line c) =
           (if readable fp c then Inr (reloaded fp c) else Inl NonFinite)"
proof -
  obtain b ch f d p where c: "c = (b, ch, f, d, p)" by (cases c) auto
  have nl: "list_all num_space [CHR 0x0A]" by (simp add: num_space_def)
  have f1: "py_float fp (fmt_fixed 6 f) = from_decimal fp (f < 0) (decimal 6 f)"
    using py_float_fmt_fixed [of 6 "[]" fp f] by simp
  have f2: "py_float fp (fmt_fixed 6 d) = from_decimal fp (d < 0) (decimal 6 d)"
    using py_float_fmt_fixed [of 6 "[]" fp d] by simp
  have f3: "py_float fp (fmt_fixed 2 p @ [CHR 0x0A]) = from_decimal fp (p < 0) (decimal 2 p)"
    using py_float_fmt_fixed [of 2 "[CHR 0x0A]" fp p] nl by simp
  have sp: "split '','' (save_line (b, ch, f, d, p)) =
           [b, str_int ch, fmt_fixed 6 f, fmt_fixed 6 d, fmt_fixed 2 p @ [CHR 0x0A]]"
    using assms c by (intro split_save_line) simp
  show ?thesis
    unfolding c load_line_def sp
    by (simp add: Let_def item_def py_int_str_int f1 f2 f3 reloaded_def readable_def
        rounded_def from_decimal_def)
qed

lemma load_lines_saved:
  assumes "\<forall>c\<in>set l. CHR '','' \<notin> set (band_of c)" "\<forall>c\<in>set l. readable fp c"
  shows "load_lines fp (map save_line l) acc = Inr (acc @ map (reloaded fp) l)"
  using assms
proof (induction l arbitrary: acc)
  case Nil
  show ?case by simp
next
  case (Cons c l)
  then show ?case by (simp add: load_line_save_line)
qed

subsection \<open>The lines of a saved file\<close>

lemma lines_from_line:
  "CHR 0x0A \<notin> set a \<Longrightarrow>
   lines_from cur (a @ CHR 0x0A # rest) = (cur @ a @ [CHR 0x0A]) # lines_from [] rest"
  by (induction a arbitrary: cur) auto

lemma save_line_body:
  assumes "CHR 0x0A \<notin> set (band_of c)"
  shows "\<exists>a. save_line c = a @ [CHR 0x0A] \<and> CHR 0x0A \<notin> set a"
proof -
  obtain b ch f d p where c: "c = (b, ch, f, d, p)" by (cases c) auto
  let ?a = "b @ '','' @ str_int ch @ '','' @ fmt_fixed 6 f @ '','' @ fmt_fixed 6 d @ '',''
              @ fmt_fixed 2 p"
  have "CHR 0x0A \<notin> set (str_int ch)"
    by (rule numeric_notin [OF numeric_str_int]) (simp_all add: isdigit_def)
  moreover have "CHR 0x0A \<notin> set (fmt_fixed 6 f)" "CHR 0x0A \<notin> set (fmt_fixed 6 d)"
    "CHR 0x0A \<notin> set (fmt_fixed 2 p)"
    by (rule numeric_notin [OF numeric_fmt_fixed]; simp add: isdigit_def)+
  ultimately have "CHR 0x0A \<notin> set ?a" using assms c by simp
  moreover have "save_line c = ?a @ [CHR 0x0A]" by (simp add: save_line_def c)
  ultimately show ?thesis by blast
qed

lemma lines_from_saved:
  assumes "\<forall>c\<in>set l. CHR 0x0A \<notin> set (band_of c)"
  shows "lines_from [] (concat (map save_line l)) = map save_line l"
  using assms
proof (induction l)
  case Nil
  show ?case by simp
next
  case (Cons c l)
  then obtain a where a: "save_line c = a @ [CHR 0x0A]" "CHR 0x0A \<notin> set a"
    using save_line_body [of c] by auto
  have "lines_from [] (a @ CHR 0x0A # concat (map save_line l)) =
          ([] @ a @ [CHR 0x0A]) # lines_from [] (concat (map save_line l))"
    using a(2) by (rule lines_from_line)
  then show ?case using a(1) Cons by simp
qed

lemma file_lines_save_text:
  assumes "\<forall>c\<in>set l. CHR 0x0A \<notin> set (band_of c)"
  shows "file_lines (save_text l) = (HDR @ [CHR 0x0A]) # map save_line l"
proof -
  have "CHR 0x0A \<notin> set HDR" by (simp add: HDR_def)
  then have "lines_from [] (HDR @ CHR 0x0A # concat (map save_line l)) =
      ([] @ HDR @ [CHR 0x0A]) # lines_from [] (concat (map save_line l))"
    by (rule lines_from_line)
  then show ?thesis
    using lines_from_saved [OF assms] by (simp add: file_lines_def save_text_def)
qed

lemma universal_newlines_id: "CHR 0x0D \<notin> set s \<Longrightarrow> universal_newlines s = s"
  by (induction s rule: universal_newlines.induct) auto

lemma save_line_no_cr:
  assumes "CHR 0x0D \<notin> set (band_of c)"
  shows "CHR 0x0D \<notin> set (save_line c)"
proof -
  obtain b ch f d p where c: "c = (b, ch, f, d, p)" by (cases c) auto
  have "CHR 0x0D \<notin> set (str_int ch)"
    by (rule numeric_notin [OF numeric_str_int]) (simp_all add: isdigit_def)
  moreover have "CHR 0x0D \<notin> set (fmt_fixed 6 f)" "CHR 0x0D \<notin> set (fmt_fixed 6 d)"
    "CHR 0x0D \<notin> set (fmt_fixed 2 p)"
    by (rule numeric_notin [OF numeric_fmt_fixed]; simp add: isdigit_def)+
  ultimately show ?thesis using assms c by (simp add: save_line_def)
qed

lemma save_text_no_cr:
  assumes "\<forall>c\<in>set l. CHR 0x0D \<notin> set (band_of c)"
  shows "CHR 0x0D \<notin> set (save_text l)"
  using assms by (auto simp: save_text_def HDR_def dest: save_line_no_cr)

lemma strip_header_line: "strip (HDR @ [CHR 0x0A]) = HDR"
proof -
  have "strip ([] @ HDR @ [CHR 0x0A]) = HDR"
    by (rule strip_pad) (simp_all add: HDR_def isspace_def)
  then show ?thesis by simp
qed

lemma load_text_save_text:
  assumes "\<forall>c\<in>set l. CHR '','' \<notin> set (band_of c) \<and> CHR 0x0A \<notin> set (band_of c)"
    and "\<forall>c\<in>set l. readable fp c"
  shows "load_text fp (save_text l) = Inr (map (reloaded fp) l)"
proof -
  have fl: "file_lines (save_text l) = (HDR @ [CHR 0x0A]) # map save_line l"
    using assms(1) by (intro file_lines_save_text) simp
  have "load_lines fp (map save_line l) [] = Inr ([] @ map (reloaded fp) l)"
    using assms by (intro load_lines_saved) simp_all
  then show ?thesis
    by (simp add: load_text_def readline_def fl strip_header_line)
qed

lemma reload_saved:
  assumes "\<forall>c\<in>set l. CHR '','' \<notin> set (band_of c) \<and> CHR 0x0A \<notin> set (band_of c)
             \<and> CHR 0x0D \<notin> set (band_of c)"
    and "\<forall>c\<in>set l. readable fp c"
  shows "BTSChannels fp (save fs l fname) (FromPath fname) = Inr (map (reloaded fp) l)"
proof -
  have "universal_newlines (save_text l) = save_text l"
    using assms(1) by (intro universal_newlines_id save_text_no_cr) simp
  moreover have "load_text fp (save_text l) = Inr (map (reloaded fp) l)"
    using assms by (intro load_text_save_text) simp_all
  ultimately show ?thesis by (simp add: BTSChannels_def save_def)
qed

lemma BANDS_plain:
  "\<forall>b\<in>set BANDS. CHR '','' \<notin> set b \<and> CHR 0x0A \<notin> set b \<and> CHR 0x0D \<notin> set b"
  by (simp add: BANDS_def)

lemma readable_exact: "readable exact_arith c"
  by (simp add: readable_def exact_arith_def)

subsection \<open>Results on the channel list store\<close>

text \<open>
  C6, as stated, at a file whose first line is the header with a space before it and two
  after it: the line is not the header string, and the file is loaded, its record
  included. The numbers of the record are doubles, which the arithmetic that never
  rounds leaves as they are.
\<close>

theorem load_padded_header_counterexample:
  "readline '' band,channel,freq (MHz),freq deviation (kHz),power  \<newline>GSM900,1,1.5,-0.5,3.25\<newline>''
     = '' band,channel,freq (MHz),freq deviation (kHz),power  \<newline>'' \<and>
   HDR = ''band,channel,freq (MHz),freq deviation (kHz),power'' \<and>
   BTSChannels exact_arith
     (Map.empty(''bts_channels.csv'' \<mapsto>
        '' band,channel,freq (MHz),freq deviation (kHz),power  \<newline>GSM900,1,1.5,-0.5,3.25\<newline>''))
     (FromPath ''bts_channels.csv'') =
     Inr [(''GSM900'', 1, 3 / 2, - (1 / 2), 13 / 4)]"
proof (intro conjI)
  show "readline '' band,channel,freq (MHz),freq deviation (kHz),power  \<newline>GSM900,1,1.5,-0.5,3.25\<newline>''
     = '' band,channel,freq (MHz),freq deviation (kHz),power  \<newline>''"
    by code_simp
next
  show "HDR = ''band,channel,freq (MHz),freq deviation (kHz),power''"
    by (simp add: HDR_def)
next
  have "load_text exact_arith (universal_newlines
      '' band,channel,freq (MHz),freq deviation (kHz),power  \<newline>GSM900,1,1.5,-0.5,3.25\<newline>'') =
      Inr [(''GSM900'', 1, 3 / 2, - (1 / 2), 13 / 4)]"
    by code_simp
  then show "BTSChannels exact_arith
     (Map.empty(''bts_channels.csv'' \<mapsto>
        '' band,channel,freq (MHz),freq deviation (kHz),power  \<newline>GSM900,1,1.5,-0.5,3.25\<newline>''))
     (FromPath ''bts_channels.csv'') =
     Inr [(''GSM900'', 1, 3 / 2, - (1 / 2), 13 / 4)]"
    by (simp add: BTSChannels_def)
qed

text \<open>
  C6, amended. Loading a file raises \<^verbatim>\<open>ValueError\<close>, and so loads no record,
  whenever its first line, with the whitespace at both ends removed, is not the header
  string; when it is, loading goes on to the data lines.
\<close>

theorem load_rejects_other_header:
  assumes "fs path = Some raw"
  shows "(strip (readline (universal_newlines raw)) \<noteq> HDR \<longrightarrow>
            BTSChannels fp fs (FromPath path) = Inl ValueError) \<and>
         (strip (readline (universal_newlines raw)) = HDR \<longrightarrow>
            BTSChannels fp fs (FromPath path) =
              load_lines fp (drop 1 (file_lines (universal_newlines raw))) [])"
  using assms by (simp add: BTSChannels_def load_text_def)

theorem load_rejects_other_header_witness:
  "BTSChannels exact_arith
     (Map.empty(''bts_channels.csv'' \<mapsto> ''band;channel\<newline>GSM900,1,935.200000,-0.150000,55.23\<newline>''))
     (FromPath ''bts_channels.csv'') = Inl ValueError"
proof -
  let ?raw = "''band;channel\<newline>GSM900,1,935.200000,-0.150000,55.23\<newline>''"
  let ?fs = "Map.empty(''bts_channels.csv'' \<mapsto> ?raw)"
  have f: "?fs ''bts_channels.csv'' = Some ?raw" by simp
  have h: "strip (readline (universal_newlines ?raw)) \<noteq> HDR" by code_simp
  from load_rejects_other_header [of ?fs "''bts_channels.csv''" ?raw exact_arith] f h
  show ?thesis by blast
qed

text \<open>
  C7, as stated, at a list of one record of band \<open>GSM900\<close> whose deviation is
  \<open>1 / 4194304\<close>, which is \<open>1 / 2 ^ 22\<close> and a double: the deviation is written \<^verbatim>\<open>0.000000\<close>, the same text
  as for the deviation 0, so that whatever the arithmetic of floats the two lists are
  read back as the same list; with the arithmetic that never rounds, the deviation read
  back is 0 and not the deviation saved. The format does not keep the full precision.
\<close>

theorem save_six_decimals_counterexample:
  "save_text [(''GSM900'', 1, 900, 1 / 4194304, 50)] =
     ''band,channel,freq (MHz),freq deviation (kHz),power\<newline>GSM900,1,900.000000,0.000000,50.00\<newline>'' \<and>
   (\<forall>fp. BTSChannels fp (save Map.empty [(''GSM900'', 1, 900, 1 / 4194304, 50)] ''bts_channels.csv'')
           (FromPath ''bts_channels.csv'') =
         BTSChannels fp (save Map.empty [(''GSM900'', 1, 900, 0, 50)] ''bts_channels.csv'')
           (FromPath ''bts_channels.csv'')) \<and>
   BTSChannels exact_arith
     (save Map.empty [(''GSM900'', 1, 900, 1 / 4194304, 50)] ''bts_channels.csv'')
     (FromPath ''bts_channels.csv'') = Inr [(''GSM900'', 1, 900, 0, 50)] \<and>
   [(''GSM900'', 1, 900, 0, 50)] \<noteq> ([(''GSM900'', 1, 900, 1 / 4194304, 50)] :: channel list)"
proof (intro conjI allI)
  have r0: "round_half_even (\<bar>1 / 4194304\<bar> * 10 ^ 6) = 0"
    by (simp add: round_half_even_def)
  have rz: "round_half_even (\<bar>0\<bar> * 10 ^ 6) = 0"
    by (simp add: round_half_even_def)
  have d: "fmt_fixed 6 (1 / 4194304) = fmt_fixed 6 0"
    unfolding fmt_fixed_def r0 rz by simp
  have s: "save_text [(''GSM900'', 1, 900, 1 / 4194304, 50)] =
      save_text [(''GSM900'', 1, 900, 0, 50)]"
    by (simp add: save_text_def save_line_def d)
  have d0: "digits_of 0 = ''0''" and d1: "digits_of (Suc 0) = ''1''"
    and d5: "digits_of 5 = ''5''" and d9: "digits_of 9 = ''9''"
    by (simp_all add: digits_of_small digit_chr_def)
  have d50: "digits_of 50 = ''50''"
    by (simp add: digits_of_big d5 digit_chr_def)
  have d90: "digits_of 90 = ''90''"
    by (simp add: digits_of_big d9 digit_chr_def)
  have d900: "digits_of 900 = ''900''"
    by (simp add: digits_of_big d90 digit_chr_def)
  have z6: "zfill 6 ''0'' = ''000000''" and z2: "zfill 2 ''0'' = ''00''"
    by (simp_all add: zfill_def numeral_eq_Suc)
  have r9: "round_half_even (\<bar>900\<bar> * 10 ^ 6) = 900 * 10 ^ 6"
    and r5: "round_half_even (\<bar>50\<bar> * 10 ^ 2) = 50 * 10 ^ 2"
    by (simp_all add: round_half_even_def)
  have n9: "nat (900 * 10 ^ 6) div 10 ^ 6 = 900" "nat (900 * 10 ^ 6) mod 10 ^ 6 = 0"
    and n5: "nat (50 * 10 ^ 2) div 10 ^ 2 = 50" "nat (50 * 10 ^ 2) mod 10 ^ 2 = 0"
    by simp_all
  have f0: "fmt_fixed 6 0 = ''0.000000''"
    unfolding fmt_fixed_def rz Let_def by (simp add: d0 z6)
  have f9: "fmt_fixed 6 900 = ''900.000000''"
    unfolding fmt_fixed_def r9 Let_def n9 by (simp add: d900 d0 z6)
  have f5: "fmt_fixed 2 50 = ''50.00''"
    unfolding fmt_fixed_def r5 Let_def n5 by (simp add: d50 d0 z2)
  show "save_text [(''GSM900'', 1, 900, 1 / 4194304, 50)] =
     ''band,channel,freq (MHz),freq deviation (kHz),power\<newline>GSM900,1,900.000000,0.000000,50.00\<newline>''"
    by (simp add: save_text_def HDR_def save_line_def d f0 f9 f5 str_int_def d1)
  show "BTSChannels fp (save Map.empty [(''GSM900'', 1, 900, 1 / 4194304, 50)] ''bts_channels.csv'')
           (FromPath ''bts_channels.csv'') =
         BTSChannels fp (save Map.empty [(''GSM900'', 1, 900, 0, 50)] ''bts_channels.csv'')
           (FromPath ''bts_channels.csv'')" for fp
    by (simp add: save_def s)
  have p: "\<forall>c\<in>set [(''GSM900'', 1, 900, 1 / 4194304, 50) :: channel].
      CHR '','' \<notin> set (band_of c) \<and> CHR 0x0A \<notin> set (band_of c) \<and> CHR 0x0D \<notin> set (band_of c)"
    by simp
  have q: "\<forall>c\<in>set [(''GSM900'', 1, 900, 1 / 4194304, 50) :: channel]. readable exact_arith c"
    by (simp add: readable_exact)
  have v: "reloaded exact_arith (''GSM900'', 1, 900, 1 / 4194304, 50) = (''GSM900'', 1, 900, 0, 50)"
    unfolding reloaded_def rounded_def decimal_def frequency_of.simps deviation_of.simps
      power_of.simps band_of.simps channel_of.simps r0 r9 r5
    by (simp add: exact_arith_def)
  have "BTSChannels exact_arith
     (save Map.empty [(''GSM900'', 1, 900, 1 / 4194304, 50)] ''bts_channels.csv'')
     (FromPath ''bts_channels.csv'') =
     Inr (map (reloaded exact_arith) [(''GSM900'', 1, 900, 1 / 4194304, 50)])"
    using p q by (rule reload_saved)
  then show "BTSChannels exact_arith
     (save Map.empty [(''GSM900'', 1, 900, 1 / 4194304, 50)] ''bts_channels.csv'')
     (FromPath ''bts_channels.csv'') = Inr [(''GSM900'', 1, 900, 0, 50)]"
    by (simp add: v)
  show "[(''GSM900'', 1, 900, 0, 50)] \<noteq> ([(''GSM900'', 1, 900, 1 / 4194304, 50)] :: channel list)"
    by simp
qed

text \<open>
  C7, amended. For every channel list whose band names hold no comma, no line feed and
  no carriage return, as the band names of the specification do, and whose numbers as
  written are not too large for a double, saving the list and loading the file written
  gives the records in the same order, band and channel number unchanged; frequency and
  deviation are the doubles of the values written with six decimals, power that of the
  value written with two. A value written is within half a unit of its last decimal of
  the value saved, so that a field read back is within that distance, and the distance
  between the value written and its double, of the field saved.
\<close>

theorem save_load_roundtrip:
  assumes "\<forall>c\<in>set l. CHR '','' \<notin> set (band_of c) \<and> CHR 0x0A \<notin> set (band_of c)
             \<and> CHR 0x0D \<notin> set (band_of c)"
    and "\<forall>c\<in>set l. readable fp c"
  shows "BTSChannels fp (save fs l fname) (FromPath fname) = Inr (map (reloaded fp) l) \<and>
         (\<forall>c. band_of (reloaded fp c) = band_of c \<and> channel_of (reloaded fp c) = channel_of c \<and>
              \<bar>frequency_of (reloaded fp c) - frequency_of c\<bar>
                \<le> 1 / (2 * 10 ^ 6) + conversion_error fp (decimal 6 (frequency_of c)) \<and>
              \<bar>deviation_of (reloaded fp c) - deviation_of c\<bar>
                \<le> 1 / (2 * 10 ^ 6) + conversion_error fp (decimal 6 (deviation_of c)) \<and>
              \<bar>power_of (reloaded fp c) - power_of c\<bar>
                \<le> 1 / (2 * 10 ^ 2) + conversion_error fp (decimal 2 (power_of c))) \<and>
         (\<forall>p x. \<bar>decimal p x - \<bar>x\<bar>\<bar> \<le> 1 / (2 * 10 ^ p)) \<and>
         (\<forall>b\<in>set BANDS. CHR '','' \<notin> set b \<and> CHR 0x0A \<notin> set b \<and> CHR 0x0D \<notin> set b)"
proof (intro conjI)
  show "BTSChannels fp (save fs l fname) (FromPath fname) = Inr (map (reloaded fp) l)"
    using assms by (rule reload_saved)
next
  show "\<forall>c. band_of (reloaded fp c) = band_of c \<and> channel_of (reloaded fp c) = channel_of c \<and>
              \<bar>frequency_of (reloaded fp c) - frequency_of c\<bar>
                \<le> 1 / (2 * 10 ^ 6) + conversion_error fp (decimal 6 (frequency_of c)) \<and>
              \<bar>deviation_of (reloaded fp c) - deviation_of c\<bar>
                \<le> 1 / (2 * 10 ^ 6) + conversion_error fp (decimal 6 (deviation_of c)) \<and>
              \<bar>power_of (reloaded fp c) - power_of c\<bar>
                \<le> 1 / (2 * 10 ^ 2) + conversion_error fp (decimal 2 (power_of c))"
  proof
    fix c :: channel
    obtain b ch f d p where c: "c = (b, ch, f, d, p)" by (cases c) auto
    show "band_of (reloaded fp c) = band_of c \<and> channel_of (reloaded fp c) = channel_of c \<and>
              \<bar>frequency_of (reloaded fp c) - frequency_of c\<bar>
                \<le> 1 / (2 * 10 ^ 6) + conversion_error fp (decimal 6 (frequency_of c)) \<and>
              \<bar>deviation_of (reloaded fp c) - deviation_of c\<bar>
                \<le> 1 / (2 * 10 ^ 6) + conversion_error fp (decimal 6 (deviation_of c)) \<and>
              \<bar>power_of (reloaded fp c) - power_of c\<bar>
                \<le> 1 / (2 * 10 ^ 2) + conversion_error fp (decimal 2 (power_of c))"
      unfolding c reloaded_def
      using rounded_near [of fp 6 f] rounded_near [of fp 6 d] rounded_near [of fp 2 p] by simp
  qed
next
  show "\<forall>p x. \<bar>decimal p x - \<bar>x\<bar>\<bar> \<le> 1 / (2 * 10 ^ p)"
    by (simp add: decimal_near)
next
  show "\<forall>b\<in>set BANDS. CHR '','' \<notin> set b \<and> CHR 0x0A \<notin> set b \<and> CHR 0x0D \<notin> set b"
    by (rule BANDS_plain)
qed

theorem save_load_roundtrip_witness:
  "BTSChannels exact_arith
     (save Map.empty [(''GSM900'', 1, 9352 / 10, - (15 / 100), 55234 / 1000)]
       ''bts_channels.csv'') (FromPath ''bts_channels.csv'') =
     Inr [(''GSM900'', 1, 9352 / 10, - (15 / 100), 5523 / 100)]"
proof -
  let ?l = "[(''GSM900'', 1, 9352 / 10, - (15 / 100), 55234 / 1000)] :: channel list"
  have h: "\<forall>c\<in>set ?l. CHR '','' \<notin> set (band_of c) \<and> CHR 0x0A \<notin> set (band_of c)
             \<and> CHR 0x0D \<notin> set (band_of c)"
    by simp
  have q: "\<forall>c\<in>set ?l. readable exact_arith c"
    by (simp add: readable_exact)
  have r: "map (reloaded exact_arith) ?l = [(''GSM900'', 1, 9352 / 10, - (15 / 100), 5523 / 100)]"
    by (simp add: reloaded_def rounded_def decimal_def round_half_even_def exact_arith_def)
  from save_load_roundtrip [OF h q, of Map.empty "''bts_channels.csv''"] show ?thesis
    unfolding r by blast
qed

end
